theory Spec2Isabelle
  imports Main
begin

section \<open>Values, snapshots and actions\<close>

text \<open>
  A slice state is an arbitrary JavaScript value; the store only ever compares slice
  states with \<open>!==\<close>. A value is therefore modelled by its identity: \<open>Undefined\<close>, or
  the reference \<open>Ref n\<close> of an object (a primitive is the reference of itself), or
  \<open>Inherited name\<close>, the value that a plain object without an own property \<open>name\<close>
  inherits under that name from \<open>Object.prototype\<close> (for \<open>__proto__\<close> the prototype
  itself). \<open>===\<close> is equality of identities.
\<close>

datatype val = Undefined | Ref nat | Inherited string

text \<open>
  \<open>AppState\<close> is a plain object, with the prototype \<open>Object.prototype\<close>: its own
  properties in insertion order (\<open>props\<close>), each key once, and the identity of the
  object (\<open>ident\<close>), so that returning the same object and returning a copy of it are
  different results.
\<close>

record AppState =
  ident :: nat
  props :: "(string \<times> val) list"

record Action =
  type :: string
  payload :: val

type_synonym Reducer = "val \<Rightarrow> Action \<Rightarrow> val"

type_synonym ReducerDictionary = "(string \<times> Reducer) list"

text \<open>
  \<open>Object.keys(obj)\<close> lists the keys that are array indices (canonical decimal
  numerals below \<open>2^32 - 1\<close>) first, in ascending numeric order, and then the other
  keys in insertion order. \<open>objectEntries\<close> are the own properties in that order.
\<close>

definition indexValue :: "string \<Rightarrow> nat" where
  "indexValue k = foldl (\<lambda>n c. 10 * n + (of_char c - 48)) 0 k"

definition isDigit :: "char \<Rightarrow> bool" where
  "isDigit c = (48 \<le> (of_char c :: nat) \<and> (of_char c :: nat) \<le> 57)"

definition isArrayIndex :: "string \<Rightarrow> bool" where
  "isArrayIndex k =
     (case k of
        [] \<Rightarrow> False
      | c # cs \<Rightarrow>
          list_all isDigit k \<and> (c \<noteq> CHR ''0'' \<or> cs = []) \<and> indexValue k < 4294967295)"

definition objectEntries :: "(string \<times> 'a) list \<Rightarrow> (string \<times> 'a) list" where
  "objectEntries obj =
     sort_key (\<lambda>e. indexValue (fst e)) (filter (\<lambda>e. isArrayIndex (fst e)) obj) @
     filter (\<lambda>e. \<not> isArrayIndex (fst e)) obj"

definition objectKeys :: "(string \<times> 'a) list \<Rightarrow> string list" where
  "objectKeys obj = map fst (objectEntries obj)"

text \<open>
  \<open>obj[key]\<close> on a plain object: the own property, or else what the object inherits
  from \<open>Object.prototype\<close>, or else \<open>undefined\<close>.
\<close>

definition objectPrototypeMembers :: "string list" where
  "objectPrototypeMembers =
     [''constructor'', ''__defineGetter__'', ''__defineSetter__'', ''hasOwnProperty'',
      ''__lookupGetter__'', ''__lookupSetter__'', ''isPrototypeOf'', ''propertyIsEnumerable'',
      ''toString'', ''valueOf'', ''__proto__'', ''toLocaleString'']"

definition getProp :: "(string \<times> val) list \<Rightarrow> string \<Rightarrow> val" where
  "getProp obj k =
     (case map_of obj k of
        Some v \<Rightarrow> v
      | None \<Rightarrow> if k \<in> set objectPrototypeMembers then Inherited k else Undefined)"

text \<open>
  Defining an own property (an existing key keeps its place, a new key goes last), and
  the assignment \<open>obj[key] = v\<close> on a plain object: it defines the own property, except
  for the key \<open>__proto__\<close> when the object has no such own property: the assignment then
  goes to the setter of \<open>Object.prototype\<close> and creates no own key. (The prototype that
  this setter may install is not part of the model; the theorems on the combined reducer
  are about dictionaries without the key \<open>__proto__\<close>.)
\<close>

fun defineProp :: "(string \<times> 'a) list \<Rightarrow> string \<Rightarrow> 'a \<Rightarrow> (string \<times> 'a) list" where
  "defineProp [] k v = [(k, v)]"
| "defineProp ((k', v') # obj) k v =
     (if k' = k then (k, v) # obj else (k', v') # defineProp obj k v)"

definition setProp :: "(string \<times> 'a) list \<Rightarrow> string \<Rightarrow> 'a \<Rightarrow> (string \<times> 'a) list" where
  "setProp obj k v =
     (if k = ''__proto__'' \<and> k \<notin> fst ` set obj then obj else defineProp obj k v)"

section \<open>combineReducers\<close>

text \<open>
  The \<open>for\<close> loop of \<open>combineReducers\<close> over \<open>reducerKeys\<close>; each entry is a key
  \<open>reducerKeys[i]\<close> with its reducer \<open>reducers[key]\<close>. The loop state is
  \<open>(hasChanged, nextState)\<close>.
\<close>

fun combineLoop ::
  "ReducerDictionary \<Rightarrow> (string \<times> val) list \<Rightarrow> Action \<Rightarrow>
   bool \<times> (string \<times> val) list \<Rightarrow> bool \<times> (string \<times> val) list" where
  "combineLoop [] state action (hasChanged, nextState) = (hasChanged, nextState)"
| "combineLoop ((key, reducer) # rest) state action (hasChanged, nextState) =
     (let previousStateForKey = getProp state key;
          nextStateForKey = reducer previousStateForKey action
      in combineLoop rest state action
           (hasChanged \<or> nextStateForKey \<noteq> previousStateForKey,
            setProp nextState key nextStateForKey))"

text \<open>
  \<open>combineReducers(reducers)(state, action)\<close>. \<open>fresh\<close> is the first unused object
  identity: the default \<open>{}\<close> of a missing \<open>state\<close> is allocated at \<open>fresh\<close>, the
  object \<open>nextState\<close> at \<open>Suc fresh\<close>.
\<close>

definition combineReducers ::
  "ReducerDictionary \<Rightarrow> nat \<Rightarrow> AppState option \<Rightarrow> Action \<Rightarrow> AppState" where
  "combineReducers reducers fresh stateArg action =
     (let reducerKeyLength = length (objectKeys reducers);
          state = (case stateArg of None \<Rightarrow> \<lparr>ident = fresh, props = []\<rparr> | Some s \<Rightarrow> s);
          stateKeysLength = length (objectKeys (props state));
          (hasChanged, nextState) =
            combineLoop (objectEntries reducers) (props state) action
              (stateKeysLength \<noteq> reducerKeyLength, [])
      in if hasChanged then \<lparr>ident = Suc fresh, props = nextState\<rparr> else state)"

text \<open>A reducer that returns the state it is given, whatever the action.\<close>

definition identityReducer :: Reducer where
  "identityReducer s a = s"

text \<open>
  The new mapping: every registered key with the result of its reducer, in the order of
  \<open>Object.keys(reducers)\<close>.
\<close>

definition reducedProps ::
  "ReducerDictionary \<Rightarrow> (string \<times> val) list \<Rightarrow> Action \<Rightarrow> (string \<times> val) list" where
  "reducedProps reducers state action =
     map (\<lambda>(key, reducer). (key, reducer (getProp state key) action)) (objectEntries reducers)"

section \<open>Errors and internal actions\<close>

datatype error = Error string | DuplicateKeyError string

text \<open>
  Modelled from the spec: \<open>miniRxError\<close> of \<open>@mini-rx/common\<close> is not among the
  sources. It throws (the return type of the caller in \<open>store.ts\<close> is
  \<open>Store | never\<close>); the thrown error carries the message.
\<close>

definition miniRxError :: "string \<Rightarrow> error" where
  "miniRxError message = Error (''@mini-rx: '' @ message)"

datatype OperationType = INIT | DESTROY

text \<open>
  Modelled from the spec: \<open>createMiniRxActionType\<close> of \<open>@mini-rx/common\<close> is not
  among the sources; the type of an internal action is
  \<open><namespace>/<lifecycle-or-operation>[/<slice-or-field-name>]\<close>.
\<close>

definition operationName :: "OperationType \<Rightarrow> string" where
  "operationName operationType = (case operationType of INIT \<Rightarrow> ''init'' | DESTROY \<Rightarrow> ''destroy'')"

definition createMiniRxActionType :: "OperationType \<Rightarrow> string option \<Rightarrow> string" where
  "createMiniRxActionType operationType featureKey =
     ''@mini-rx/'' @ operationName operationType @
       (case featureKey of None \<Rightarrow> [] | Some k \<Rightarrow> ''/'' @ k)"

definition miniRxAction :: "OperationType \<Rightarrow> string option \<Rightarrow> Action" where
  "miniRxAction operationType featureKey =
     \<lparr>type = createMiniRxActionType operationType featureKey, payload = Undefined\<rparr>"

section \<open>Reducer manager\<close>

type_synonym AppReducer = "AppState \<Rightarrow> Action \<Rightarrow> AppState"

type_synonym MetaReducer = "AppReducer \<Rightarrow> AppReducer"

type_synonym SliceMetaReducer = "Reducer \<Rightarrow> Reducer"

text \<open>
  Modelled from the spec: \<open>createReducerManager\<close> of \<open>@mini-rx/common\<close> is not among
  the sources. Its state is the set of slice registration records, in registration
  order, and the ordered list of process-wide meta-reducers. A record is kept as the
  slice key with the reducer that the combined reducer invokes for it: the slice's
  reducer wrapped by its local meta-reducers and seeded with its initial state. The
  records are the own properties of the dictionary that \<open>combineReducers\<close> is given.
\<close>

record ReducerManager =
  featureReducers :: ReducerDictionary
  processMetaReducers :: "MetaReducer list"

definition createReducerManager :: ReducerManager where
  "createReducerManager = \<lparr>featureReducers = [], processMetaReducers = []\<rparr>"

definition hasFeatureReducers :: "ReducerManager \<Rightarrow> bool" where
  "hasFeatureReducers rm = (featureReducers rm \<noteq> [])"

definition addMetaReducers :: "MetaReducer list \<Rightarrow> ReducerManager \<Rightarrow> ReducerManager" where
  "addMetaReducers ms rm = rm\<lparr>processMetaReducers := processMetaReducers rm @ ms\<rparr>"

definition setFeatureReducers :: "ReducerDictionary \<Rightarrow> ReducerManager \<Rightarrow> ReducerManager" where
  "setFeatureReducers rs rm = rm\<lparr>featureReducers := rs\<rparr>"

definition sliceReducer ::
  "Reducer \<Rightarrow> SliceMetaReducer list option \<Rightarrow> val option \<Rightarrow> Reducer" where
  "sliceReducer reducer localMetaReducers initialState =
     (let wrapped = fold (\<lambda>m r. m r) (case localMetaReducers of None \<Rightarrow> [] | Some ms \<Rightarrow> ms) reducer
      in case initialState of
           None \<Rightarrow> wrapped
         | Some init \<Rightarrow> (\<lambda>s a. wrapped (if s = Undefined then init else s) a))"

definition addFeatureReducer ::
  "string \<Rightarrow> Reducer \<Rightarrow> SliceMetaReducer list option \<Rightarrow> val option \<Rightarrow>
   ReducerManager \<Rightarrow> error + ReducerManager" where
  "addFeatureReducer featureKey reducer localMetaReducers initialState rm =
     (if featureKey \<in> set (objectKeys (featureReducers rm))
      then Inl (DuplicateKeyError featureKey)
      else Inr (rm\<lparr>featureReducers :=
             defineProp (featureReducers rm) featureKey
               (sliceReducer reducer localMetaReducers initialState)\<rparr>))"

definition removeFeatureReducer :: "string \<Rightarrow> ReducerManager \<Rightarrow> ReducerManager" where
  "removeFeatureReducer featureKey rm =
     rm\<lparr>featureReducers := filter (\<lambda>(k, r). k \<noteq> featureKey) (featureReducers rm)\<rparr>"

text \<open>
  The reducer of the manager: the combined reducer of the registered slices, wrapped by
  the process-wide meta-reducers, the first installed innermost.
\<close>

definition managerReducer :: "ReducerManager \<Rightarrow> nat \<Rightarrow> AppReducer" where
  "managerReducer rm fresh =
     fold (\<lambda>m r. m r) (processMetaReducers rm)
       (\<lambda>state action. combineReducers (featureReducers rm) fresh (Some state) action)"

section \<open>Extensions\<close>

text \<open>
  Modelled from the spec: the declarations \<open>ExtensionId\<close>, \<open>StoreExtension\<close> and
  \<open>sortExtensions\<close> of \<open>@mini-rx/common\<close> are not among the sources. An extension
  descriptor is \<open>{ id, priority, init() }\<close>; \<open>init\<close> holds what \<open>init()\<close> returns
  (a meta-reducer or nothing); the registration order is re-sorted by priority before
  installation.
\<close>

datatype ExtensionId = LOGGER | IMMUTABLE | UNDO | REDUX_DEVTOOLS

record StoreExtension =
  extensionId :: ExtensionId
  sortOrder :: nat
  init :: "MetaReducer option"

definition sortExtensions :: "StoreExtension list \<Rightarrow> StoreExtension list" where
  "sortExtensions extensions = sort_key sortOrder extensions"

record StoreConfig =
  reducers :: "ReducerDictionary option"
  metaReducers :: "MetaReducer list option"
  extensions :: "StoreExtension list option"
  initialState :: "AppState option"

section \<open>Store core\<close>

text \<open>
  One application of the reducer subscription to an action, as observed from outside:
  the action, the slice keys registered when it was reduced, and the snapshot before and
  after.
\<close>

record Reduction =
  reducedAction :: Action
  registeredThen :: "string list"
  previousState :: AppState
  nextState :: AppState

text \<open>
  The module variables of \<open>store-core.ts\<close> and \<open>store.ts\<close>. \<open>actionSubscription\<close>
  tells whether the variable holds a subscription; \<open>subscriptions\<close> counts the live
  subscriptions of the reducer callback on \<open>actions$\<close>; \<open>appState\<close> is \<open>None\<close> while
  \<open>appState.get()\<close> is \<open>undefined\<close>; \<open>nextIdent\<close> is the first unused object identity.
  \<open>dispatched\<close> and \<open>reductions\<close> record what happened: every action passed to
  \<open>dispatch\<close>, and every application of the reducer callback, oldest first.
\<close>

record StoreCore =
  hasUndoExtension :: bool
  actionSubscription :: bool
  reducerManager :: "ReducerManager option"
  appState :: "AppState option"
  isStoreConfigured :: bool
  subscriptions :: nat
  nextIdent :: nat
  dispatched :: "Action list"
  reductions :: "Reduction list"

definition initialStore :: StoreCore where
  "initialStore =
     \<lparr>hasUndoExtension = False, actionSubscription = False, reducerManager = None,
      appState = None, isStoreConfigured = False, subscriptions = 0, nextIdent = 0,
      dispatched = [], reductions = []\<rparr>"

definition getReducerManager :: "StoreCore \<Rightarrow> ReducerManager \<times> StoreCore" where
  "getReducerManager s =
     (case reducerManager s of
        None \<Rightarrow> (createReducerManager, s\<lparr>reducerManager := Some createReducerManager\<rparr>)
      | Some rm \<Rightarrow> (rm, s))"

definition updateReducerManager :: "(ReducerManager \<Rightarrow> ReducerManager) \<Rightarrow> StoreCore \<Rightarrow> StoreCore" where
  "updateReducerManager f s =
     (let (rm, s1) = getReducerManager s in s1\<lparr>reducerManager := Some (f rm)\<rparr>)"

text \<open>
  The callback that \<open>initStore\<close> subscribes:
  \<open>appState.set(getReducerManager().reducer(appState.get() ?? {}, action))\<close>.
\<close>

definition onAction :: "Action \<Rightarrow> StoreCore \<Rightarrow> StoreCore" where
  "onAction action s =
     (let (rm, s1) = getReducerManager s;
          current = (case appState s1 of
                       None \<Rightarrow> \<lparr>ident = nextIdent s1, props = []\<rparr>
                     | Some state \<Rightarrow> state);
          next = managerReducer rm (Suc (nextIdent s1)) current action
      in s1\<lparr>appState := Some next,
             nextIdent := nextIdent s1 + 3,
             reductions := reductions s1 @
               [\<lparr>reducedAction = action, registeredThen = objectKeys (featureReducers rm),
                 previousState = current, nextState = next\<rparr>]\<rparr>)"

text \<open>
  Modelled from the spec: \<open>createActionsOnQueue\<close> of \<open>@mini-rx/common\<close> is not among
  the sources. \<open>dispatch\<close> hands the action to every subscription of \<open>actions$\<close>;
  the reducer callback dispatches nothing itself, so an action dispatched from outside
  is delivered before \<open>dispatch\<close> returns.
\<close>

definition dispatch :: "Action \<Rightarrow> StoreCore \<Rightarrow> StoreCore" where
  "dispatch action s =
     (onAction action ^^ subscriptions s) (s\<lparr>dispatched := dispatched s @ [action]\<rparr>)"

definition initStore :: "StoreCore \<Rightarrow> StoreCore" where
  "initStore s =
     (if actionSubscription s then s
      else s\<lparr>subscriptions := Suc (subscriptions s), actionSubscription := True\<rparr>)"

text \<open>\<open>addExtension\<close> of \<open>mini-rx-store/store-core.ts\<close>.\<close>

definition addExtension :: "StoreExtension \<Rightarrow> StoreCore \<Rightarrow> StoreCore" where
  "addExtension extension s =
     (let s1 = (case init extension of
                  None \<Rightarrow> s
                | Some metaReducer \<Rightarrow> updateReducerManager (addMetaReducers [metaReducer]) s)
      in s1\<lparr>hasUndoExtension := (extensionId extension = UNDO)\<rparr>)"

text \<open>
  \<open>addExtension\<close> of \<open>signal-store/store-core.ts\<close>, whose module has the same
  variables \<open>hasUndoExtension\<close> and \<open>reducerManager\<close>.
\<close>

definition signalAddExtension :: "StoreExtension \<Rightarrow> StoreCore \<Rightarrow> StoreCore" where
  "signalAddExtension extension s =
     (let s1 = (case init extension of
                  None \<Rightarrow> s
                | Some metaReducer \<Rightarrow> updateReducerManager (addMetaReducers [metaReducer]) s)
      in if extensionId extension = UNDO then s1\<lparr>hasUndoExtension := True\<rparr> else s1)"

text \<open>The two errors that \<open>store-core.ts\<close> and \<open>store.ts\<close> throw.\<close>

definition detectedReducers :: error where
  "detectedReducers = miniRxError
     ''`configureStore` detected reducers. Did you instantiate FeatureStores before calling `configureStore`?''"

definition calledMultipleTimes :: error where
  "calledMultipleTimes = miniRxError ''`configureStore` was called multiple times.''"

text \<open>
  \<open>configureStore\<close> of \<open>mini-rx-store/store-core.ts\<close>. A function that can throw
  returns the error, or its value, together with the state it leaves behind.
\<close>

definition configureStoreCore :: "StoreConfig \<Rightarrow> StoreCore \<Rightarrow> (error + unit) \<times> StoreCore" where
  "configureStoreCore config s =
     (let s1 = initStore s;
          (rm, s2) = getReducerManager s1
      in if hasFeatureReducers rm
         then (Inl detectedReducers, s2)
         else
           let s3 = (case metaReducers config of
                       None \<Rightarrow> s2
                     | Some ms \<Rightarrow> updateReducerManager (addMetaReducers ms) s2);
               s4 = (case extensions config of
                       None \<Rightarrow> s3
                     | Some es \<Rightarrow> fold addExtension (sortExtensions es) s3);
               s5 = (case reducers config of
                       None \<Rightarrow> s4
                     | Some rs \<Rightarrow> updateReducerManager (setFeatureReducers rs) s4);
               s6 = (case initialState config of
                       None \<Rightarrow> s5
                     | Some state \<Rightarrow> s5\<lparr>appState := Some state\<rparr>)
           in (Inr (), dispatch (miniRxAction INIT None) s6))"

definition addFeature ::
  "string \<Rightarrow> Reducer \<Rightarrow> SliceMetaReducer list option \<Rightarrow> val option \<Rightarrow>
   StoreCore \<Rightarrow> (error + unit) \<times> StoreCore" where
  "addFeature featureKey reducer localMetaReducers initial s =
     (let s1 = initStore s;
          (rm, s2) = getReducerManager s1
      in case addFeatureReducer featureKey reducer localMetaReducers initial rm of
           Inl e \<Rightarrow> (Inl e, s2)
         | Inr rm' \<Rightarrow>
             (Inr (), dispatch (miniRxAction INIT (Some featureKey))
                        (s2\<lparr>reducerManager := Some rm'\<rparr>)))"

definition removeFeature :: "string \<Rightarrow> StoreCore \<Rightarrow> StoreCore" where
  "removeFeature featureKey s =
     dispatch (miniRxAction DESTROY (Some featureKey))
       (updateReducerManager (removeFeatureReducer featureKey) s)"

text \<open>\<open>destroy\<close>, used for testing.\<close>

definition destroy :: "StoreCore \<Rightarrow> StoreCore" where
  "destroy s =
     s\<lparr>subscriptions := (if actionSubscription s then subscriptions s - 1 else subscriptions s),
       actionSubscription := False,
       reducerManager := None\<rparr>"

text \<open>
  \<open>configureStore\<close> of \<open>store.ts\<close>; the handle it returns is the object
  \<open>{ feature, select, dispatch, effect }\<close>.
\<close>

datatype Store = StoreHandle

definition configureStore :: "StoreConfig \<Rightarrow> StoreCore \<Rightarrow> (error + Store) \<times> StoreCore" where
  "configureStore config s =
     (if \<not> isStoreConfigured s then
        (case configureStoreCore config s of
           (Inl e, s1) \<Rightarrow> (Inl e, s1)
         | (Inr u, s1) \<Rightarrow> (Inr StoreHandle, s1\<lparr>isStoreConfigured := True\<rparr>))
      else (Inl calledMultipleTimes, s))"

text \<open>
  The calls a program makes on the store, and a run of them: \<open>configureStore\<close> of
  \<open>store.ts\<close>, and of \<open>store-core.ts\<close> the exported \<open>configureStore\<close>,
  \<open>addFeature\<close>, \<open>removeFeature\<close> and \<open>dispatch\<close>. A call that throws leaves the
  state it reached; the caller goes on.
\<close>

datatype call =
    ConfigureStore StoreConfig
  | ConfigureStoreCore StoreConfig
  | AddFeature string Reducer "SliceMetaReducer list option" "val option"
  | RemoveFeature string
  | Dispatch Action

fun perform :: "call \<Rightarrow> StoreCore \<Rightarrow> StoreCore" where
  "perform (ConfigureStore config) s = snd (configureStore config s)"
| "perform (ConfigureStoreCore config) s = snd (configureStoreCore config s)"
| "perform (AddFeature featureKey reducer localMetaReducers initial) s =
     snd (addFeature featureKey reducer localMetaReducers initial s)"
| "perform (RemoveFeature featureKey) s = removeFeature featureKey s"
| "perform (Dispatch action) s = dispatch action s"

definition run :: "call list \<Rightarrow> StoreCore \<Rightarrow> StoreCore" where
  "run calls s = fold perform calls s"

section \<open>What is observed of a store\<close>

text \<open>
  The slice keys registered with the reducer manager, the keys of the snapshot
  (\<open>appState.get() ?? {}\<close>), and the process-wide meta-reducers.
\<close>

definition registeredKeys :: "StoreCore \<Rightarrow> string list" where
  "registeredKeys s =
     (case reducerManager s of None \<Rightarrow> [] | Some rm \<Rightarrow> objectKeys (featureReducers rm))"

definition snapshotKeys :: "StoreCore \<Rightarrow> string list" where
  "snapshotKeys s =
     (case appState s of None \<Rightarrow> [] | Some state \<Rightarrow> objectKeys (props state))"

definition managerMetaReducers :: "StoreCore \<Rightarrow> MetaReducer list" where
  "managerMetaReducers s =
     (case reducerManager s of None \<Rightarrow> [] | Some rm \<Rightarrow> processMetaReducers rm)"

text \<open>
  The snapshot that the reducer callback reads, \<open>appState.get() ?? {}\<close>; the default
  \<open>{}\<close> is allocated at the first unused identity.
\<close>

definition currentState :: "StoreCore \<Rightarrow> AppState" where
  "currentState s =
     (case appState s of None \<Rightarrow> \<lparr>ident = nextIdent s, props = []\<rparr> | Some state \<Rightarrow> state)"

text \<open>The calls that run \<open>initStore\<close>.\<close>

definition initialising :: "call \<Rightarrow> bool" where
  "initialising c =
     (case c of
        ConfigureStore _ \<Rightarrow> True
      | ConfigureStoreCore _ \<Rightarrow> True
      | AddFeature _ _ _ _ \<Rightarrow> True
      | _ \<Rightarrow> False)"

text \<open>
  A configuration that installs no meta-reducer (none of its own, and extensions whose
  \<open>init()\<close> returns nothing), whose initial reducers are an object without the key
  \<open>__proto__\<close>, and that sets no initial state. A slice call is a dispatch, a
  registration under a key other than \<open>__proto__\<close>, a teardown, or \<open>configureStore\<close>
  with such a configuration. The calls of a run are made one after the other, none from
  inside the processing of an action.
\<close>

definition plainConfig :: "StoreConfig \<Rightarrow> bool" where
  "plainConfig config =
     ((case metaReducers config of
         None \<Rightarrow> True
       | Some ms \<Rightarrow> (case ms of [] \<Rightarrow> True | _ \<Rightarrow> False)) \<and>
      (case extensions config of
         None \<Rightarrow> True
       | Some es \<Rightarrow> list_all (\<lambda>e. case init e of None \<Rightarrow> True | Some m \<Rightarrow> False) es) \<and>
      (case reducers config of
         None \<Rightarrow> True
       | Some rs \<Rightarrow> distinct (objectKeys rs) \<and> ''__proto__'' \<notin> set (objectKeys rs)) \<and>
      (case initialState config of None \<Rightarrow> True | Some state \<Rightarrow> False))"

definition sliceCall :: "call \<Rightarrow> bool" where
  "sliceCall c =
     (case c of
        ConfigureStore config \<Rightarrow> plainConfig config
      | ConfigureStoreCore config \<Rightarrow> plainConfig config
      | AddFeature featureKey _ _ _ \<Rightarrow> featureKey \<noteq> ''__proto__''
      | _ \<Rightarrow> True)"

text \<open>
  The slices that a sequence of calls leaves registered, read off the calls alone, with
  whether the store is configured: a registration adds its key unless it is there (the
  call then throws), a teardown removes it, and \<open>configureStore\<close> registers the
  reducers of its configuration unless the store has slices or, for the one of
  \<open>store.ts\<close>, is configured (the call then throws).
\<close>

fun trackSlices :: "call \<Rightarrow> bool \<times> string list \<Rightarrow> bool \<times> string list" where
  "trackSlices (ConfigureStore config) (configured, ks) =
     (if configured \<or> ks \<noteq> [] then (configured, ks)
      else (True, case reducers config of None \<Rightarrow> [] | Some rs \<Rightarrow> objectKeys rs))"
| "trackSlices (ConfigureStoreCore config) (configured, ks) =
     (if ks \<noteq> [] then (configured, ks)
      else (configured, case reducers config of None \<Rightarrow> [] | Some rs \<Rightarrow> objectKeys rs))"
| "trackSlices (AddFeature k r m i) (configured, ks) =
     (configured, if k \<in> set ks then ks else ks @ [k])"
| "trackSlices (RemoveFeature k) (configured, ks) =
     (configured, filter (\<lambda>k'. k' \<noteq> k) ks)"
| "trackSlices (Dispatch a) (configured, ks) = (configured, ks)"

definition currentSlices :: "call list \<Rightarrow> string list" where
  "currentSlices calls = snd (fold trackSlices calls (False, []))"

text \<open>Invariants of the store, used in the proofs.\<close>

definition wired :: "StoreCore \<Rightarrow> bool" where
  "wired s = (subscriptions s = (if actionSubscription s then 1 else 0))"

definition idle :: "StoreCore \<Rightarrow> bool" where
  "idle s = (subscriptions s = 0 \<and> \<not> actionSubscription s \<and> \<not> isStoreConfigured s \<and>
      reductions s = [] \<and> appState s = None)"

definition steady :: "nat \<Rightarrow> StoreCore \<Rightarrow> bool" where
  "steady n s = (subscriptions s = 1 \<and> actionSubscription s \<and> n \<le> length (dispatched s) \<and>
      map reducedAction (reductions s) = drop n (dispatched s))"

definition started :: "StoreCore \<Rightarrow> bool" where
  "started s = (wired s \<and> (\<not> actionSubscription s \<longrightarrow> registeredKeys s = []))"

definition keyed :: "StoreCore \<Rightarrow> bool" where
  "keyed s = (wired s \<and> managerMetaReducers s = [] \<and> distinct (registeredKeys s) \<and>
     ''__proto__'' \<notin> set (registeredKeys s) \<and>
     snapshotKeys s = registeredKeys s \<and>
     (\<not> actionSubscription s \<longrightarrow> registeredKeys s = [] \<and> appState s = None))"

definition emptyConfig :: StoreConfig where
  "emptyConfig =
     \<lparr>reducers = None, metaReducers = None, extensions = None, initialState = None\<rparr>"

section \<open>Action queue\<close>

text \<open>
  Modelled from the spec: \<open>createActionsOnQueue\<close> of \<open>@mini-rx/common\<close> is not among
  the sources. The queue is an explicit FIFO buffer drained by a processing loop that is
  guarded against re-entry: while the loop runs (\<open>draining\<close>), a nested \<open>dispatch\<close>
  only enqueues. A subscriber of the stream is a callback; it is given the action and the
  state the subscribers act on, and returns the new state and the actions it dispatches
  synchronously, in order. \<open>trace\<close> records what happened, oldest first: a call of
  \<open>dispatch\<close>, the return of the callback of subscriber \<open>i\<close>, and the end of the
  processing of an action.
\<close>

datatype 'a event = Dispatched 'a | Notified nat 'a | Processed 'a

record ('a, 's) ActionsOnQueue =
  buffer :: "'a list"
  draining :: bool
  subscriberState :: 's
  trace :: "'a event list"

type_synonym ('a, 's) subscriber = "'a \<Rightarrow> 's \<Rightarrow> 's \<times> 'a list"

definition createActionsOnQueue :: "'s \<Rightarrow> ('a, 's) ActionsOnQueue" where
  "createActionsOnQueue st = \<lparr>buffer = [], draining = False, subscriberState = st, trace = []\<rparr>"

definition enqueue :: "'a \<Rightarrow> ('a, 's) ActionsOnQueue \<Rightarrow> ('a, 's) ActionsOnQueue" where
  "enqueue a q = q\<lparr>buffer := buffer q @ [a], trace := trace q @ [Dispatched a]\<rparr>"

text \<open>
  \<open>dispatch\<close>, given the loop that it starts when no loop is running. The loop runs at
  most \<open>n\<close> iterations (a subscriber that dispatches at every action keeps it running
  for ever); \<open>drainLoop n\<close> is the queue after these iterations.
\<close>

definition dispatchWith ::
  "(('a, 's) ActionsOnQueue \<Rightarrow> ('a, 's) ActionsOnQueue) \<Rightarrow> 'a \<Rightarrow>
   ('a, 's) ActionsOnQueue \<Rightarrow> ('a, 's) ActionsOnQueue" where
  "dispatchWith loop a q =
     (let q1 = enqueue a q
      in if draining q1 then q1 else loop (q1\<lparr>draining := True\<rparr>))"

definition notify ::
  "('a \<Rightarrow> ('a, 's) ActionsOnQueue \<Rightarrow> ('a, 's) ActionsOnQueue) \<Rightarrow> 'a \<Rightarrow>
   nat \<times> ('a, 's) subscriber \<Rightarrow> ('a, 's) ActionsOnQueue \<Rightarrow> ('a, 's) ActionsOnQueue" where
  "notify dispatchFn a isub q =
     (let (st, out) = snd isub a (subscriberState q);
          q1 = fold dispatchFn out (q\<lparr>subscriberState := st\<rparr>)
      in q1\<lparr>trace := trace q1 @ [Notified (fst isub) a]\<rparr>)"

definition processAction ::
  "('a \<Rightarrow> ('a, 's) ActionsOnQueue \<Rightarrow> ('a, 's) ActionsOnQueue) \<Rightarrow>
   ('a, 's) subscriber list \<Rightarrow> 'a \<Rightarrow> ('a, 's) ActionsOnQueue \<Rightarrow> ('a, 's) ActionsOnQueue" where
  "processAction dispatchFn subs a q =
     (let q1 = fold (notify dispatchFn a) (enumerate 0 subs) q
      in q1\<lparr>trace := trace q1 @ [Processed a]\<rparr>)"

primrec drainLoop ::
  "nat \<Rightarrow> ('a, 's) subscriber list \<Rightarrow> ('a, 's) ActionsOnQueue \<Rightarrow> ('a, 's) ActionsOnQueue" where
  "drainLoop 0 subs q = q"
| "drainLoop (Suc n) subs q =
     (case buffer q of
        [] \<Rightarrow> q\<lparr>draining := False\<rparr>
      | a # rest \<Rightarrow>
          drainLoop n subs
            (processAction (dispatchWith (drainLoop n subs)) subs a (q\<lparr>buffer := rest\<rparr>)))"

definition dispatchOnQueue ::
  "nat \<Rightarrow> ('a, 's) subscriber list \<Rightarrow> 'a \<Rightarrow> ('a, 's) ActionsOnQueue \<Rightarrow> ('a, 's) ActionsOnQueue" where
  "dispatchOnQueue n subs = dispatchWith (drainLoop n subs)"

text \<open>
  What a trace tells: the actions in dispatch order, the actions in the order their
  processing ended, and the trace without the dispatches.
\<close>

fun dispatchedOf :: "'a event list \<Rightarrow> 'a list" where
  "dispatchedOf [] = []"
| "dispatchedOf (Dispatched a # es) = a # dispatchedOf es"
| "dispatchedOf (e # es) = dispatchedOf es"

fun processedOf :: "'a event list \<Rightarrow> 'a list" where
  "processedOf [] = []"
| "processedOf (Processed a # es) = a # processedOf es"
| "processedOf (e # es) = processedOf es"

fun deliveries :: "'a event list \<Rightarrow> 'a event list" where
  "deliveries [] = []"
| "deliveries (Dispatched a # es) = deliveries es"
| "deliveries (e # es) = e # deliveries es"

text \<open>The processing of one action by \<open>n\<close> subscribers, without interruption.\<close>

definition processingOf :: "nat \<Rightarrow> 'a \<Rightarrow> 'a event list" where
  "processingOf n a = map (\<lambda>i. Notified i a) [0..<n] @ [Processed a]"

text \<open>
  Two subscribers on natural numbers as actions: one adds the action to the state, the
  other dispatches 2 and 3 when it is notified of 1, and 4 when it is notified of 2.
\<close>

definition counting :: "(nat, nat) subscriber" where
  "counting a s = (s + a, [])"

definition chaining :: "(nat, nat) subscriber" where
  "chaining a s = (s, if a = 1 then [2, 3] else if a = 2 then [4] else [])"

text \<open>Invariants of the queue, used in the proofs.\<close>

definition ordered :: "nat \<Rightarrow> ('a, 's) ActionsOnQueue \<Rightarrow> bool" where
  "ordered n q =
     (dispatchedOf (trace q) = processedOf (trace q) @ buffer q \<and>
      deliveries (trace q) = concat (map (processingOf n) (processedOf (trace q))))"

definition settled :: "nat \<Rightarrow> ('a, 's) ActionsOnQueue \<Rightarrow> bool" where
  "settled n q = (if draining q then n \<le> length (processedOf (trace q)) else buffer q = [])"

text \<open>The reducer callback of \<open>initStore\<close> as a subscriber of the queue: it dispatches nothing.\<close>

definition reducerSubscriber :: "(Action, StoreCore) subscriber" where
  "reducerSubscriber action s = (onAction action s, [])"

section \<open>Effects\<close>

text \<open>
  Modelled from the spec: \<open>Observable\<close>, \<open>defaultEffectsErrorHandler\<close>,
  \<open>hasEffectMetaData\<close> and \<open>EffectConfig\<close> are not among the sources. The upstream
  of an effect delivers values, or fails, or completes. A failure is caught at the
  boundary of the effect: it ends the subscription of that effect and is reported. The
  metadata of an effect, when it has some, tells whether its values are dispatched.
\<close>

datatype 'a notification = Next 'a | Failure | Complete

record EffectConfig =
  effectDispatch :: "bool option"

record EffectSubscription =
  metaData :: "EffectConfig option"
  closed :: bool

record EffectRuntime =
  store :: StoreCore
  effectSubscriptions :: "EffectSubscription list"
  reportedErrors :: "nat list"

text \<open>
  The callback that \<open>effect\<close> subscribes to \<open>effectWithErrorHandler$\<close>, and
  \<open>effect\<close> itself: the new subscription is the last of the list.
\<close>

definition effectCallback :: "EffectConfig option \<Rightarrow> Action \<Rightarrow> StoreCore \<Rightarrow> StoreCore" where
  "effectCallback effectMetaData action s =
     (let shouldDispatch =
            (case effectMetaData of None \<Rightarrow> True | Some cfg \<Rightarrow> effectDispatch cfg = Some True)
      in if shouldDispatch then dispatch action s else s)"

definition effect :: "EffectConfig option \<Rightarrow> EffectRuntime \<Rightarrow> EffectRuntime" where
  "effect effectMetaData rt =
     rt\<lparr>effectSubscriptions :=
          effectSubscriptions rt @ [\<lparr>metaData = effectMetaData, closed = False\<rparr>]\<rparr>"

text \<open>
  What the upstream of effect \<open>i\<close> delivers reaches the callback while the
  subscription is open.
\<close>

definition closeSubscription :: "nat \<Rightarrow> EffectRuntime \<Rightarrow> EffectRuntime" where
  "closeSubscription i rt =
     rt\<lparr>effectSubscriptions :=
          (effectSubscriptions rt)[i := (effectSubscriptions rt ! i)\<lparr>closed := True\<rparr>]\<rparr>"

definition deliver :: "nat \<Rightarrow> Action notification \<Rightarrow> EffectRuntime \<Rightarrow> EffectRuntime" where
  "deliver i n rt =
     (if i < length (effectSubscriptions rt) \<and> \<not> closed (effectSubscriptions rt ! i) then
        (case n of
           Next action \<Rightarrow>
             rt\<lparr>store := effectCallback (metaData (effectSubscriptions rt ! i)) action (store rt)\<rparr>
         | Failure \<Rightarrow> (closeSubscription i rt)\<lparr>reportedErrors := reportedErrors rt @ [i]\<rparr>
         | Complete \<Rightarrow> closeSubscription i rt)
      else rt)"

text \<open>
  What happens over time: the upstream of an effect delivers something, an effect is
  registered, the program calls the store.
\<close>

datatype occurrence =
    Upstream nat "Action notification"
  | Register "EffectConfig option"
  | Call call

fun occur :: "occurrence \<Rightarrow> EffectRuntime \<Rightarrow> EffectRuntime" where
  "occur (Upstream i n) rt = deliver i n rt"
| "occur (Register effectMetaData) rt = effect effectMetaData rt"
| "occur (Call c) rt = rt\<lparr>store := perform c (store rt)\<rparr>"

definition fromEffect :: "nat \<Rightarrow> occurrence \<Rightarrow> bool" where
  "fromEffect i x = (case x of Upstream j n \<Rightarrow> j = i | _ \<Rightarrow> False)"

text \<open>
  Two runtimes that differ in effect \<open>i\<close> alone, whose subscription is closed in the
  first; used in the proofs.
\<close>

definition apart :: "nat \<Rightarrow> EffectRuntime \<Rightarrow> EffectRuntime \<Rightarrow> bool" where
  "apart i rt1 rt2 =
     (store rt1 = store rt2 \<and>
      length (effectSubscriptions rt1) = length (effectSubscriptions rt2) \<and>
      i < length (effectSubscriptions rt1) \<and>
      closed (effectSubscriptions rt1 ! i) \<and>
      (\<forall>j < length (effectSubscriptions rt1). j \<noteq> i \<longrightarrow>
          effectSubscriptions rt1 ! j = effectSubscriptions rt2 ! j))"

definition newRuntime :: "StoreCore \<Rightarrow> EffectRuntime" where
  "newRuntime s = \<lparr>store = s, effectSubscriptions = [], reportedErrors = []\<rparr>"

section \<open>Selectors\<close>

text \<open>
  Modelled from the spec: \<open>createSelector\<close> of \<open>signal-selector.ts\<close> is not among the
  sources, only its test in \<open>component-store.spec.ts\<close>. A selector node has its source
  selectors, its combiner, and one cache slot: the top-level state, the inputs and the
  output of its last invocation. Invoked on the state of its last invocation, it returns
  the cached output; otherwise it invokes its sources, and its combiner unless every input
  is the cached one. A projection is a plain function of the state, without cache. Nodes
  carry a number, to tell them apart in the events.
\<close>

datatype selectorEvent = SourceInvoked nat | CombinerInvoked nat "val list"

type_synonym selectorCache = "val \<times> val list \<times> val"

datatype selector =
    Projection nat "val \<Rightarrow> val"
  | Memoized nat "selector list" "val list \<Rightarrow> val" "selectorCache option"

fun label :: "selector \<Rightarrow> nat" where
  "label (Projection l f) = l"
| "label (Memoized l sources combiner cache) = l"

fun cachedFor :: "selectorCache option \<Rightarrow> val \<Rightarrow> val option" where
  "cachedFor None state = None"
| "cachedFor (Some (lastState, lastInputs, lastOutput)) state =
     (if lastState = state then Some lastOutput else None)"

fun recombine ::
  "nat \<Rightarrow> (val list \<Rightarrow> val) \<Rightarrow> selectorCache option \<Rightarrow> val \<Rightarrow> val list \<Rightarrow>
   val \<times> selectorCache \<times> selectorEvent list" where
  "recombine l combiner None state inputs =
     (combiner inputs, (state, inputs, combiner inputs), [CombinerInvoked l inputs])"
| "recombine l combiner (Some (lastState, lastInputs, lastOutput)) state inputs =
     (if inputs = lastInputs then (lastOutput, (state, lastInputs, lastOutput), [])
      else (combiner inputs, (state, inputs, combiner inputs), [CombinerInvoked l inputs]))"

text \<open>
  An invocation returns the value, the selector with its caches updated, and the events:
  which source selectors were invoked and which combiners, with their inputs.
\<close>

fun invoke :: "selector \<Rightarrow> val \<Rightarrow> val \<times> selector \<times> selectorEvent list"
  and invokeSources :: "selector list \<Rightarrow> val \<Rightarrow> val list \<times> selector list \<times> selectorEvent list" where
  "invoke (Projection l f) state = (f state, Projection l f, [])"
| "invoke (Memoized l sources combiner cache) state =
     (case cachedFor cache state of
        Some output \<Rightarrow> (output, Memoized l sources combiner cache, [])
      | None \<Rightarrow>
          (case invokeSources sources state of (inputs, sources', events) \<Rightarrow>
             (case recombine l combiner cache state inputs of (output, cache', events') \<Rightarrow>
                (output, Memoized l sources' combiner (Some cache'), events @ events'))))"
| "invokeSources [] state = ([], [], [])"
| "invokeSources (s # ss) state =
     (case invoke s state of (v, s', events) \<Rightarrow>
        (case invokeSources ss state of (vs, ss', events') \<Rightarrow>
           (v # vs, s' # ss', SourceInvoked (label s) # events @ events')))"

text \<open>
  The selectors of the test \<open>should select state with memoized selectors\<close>. The six
  states of the test are the objects \<open>Ref 100\<close> to \<open>Ref 105\<close>, with the counters 1, 2,
  2, 3, 3 and 4; \<open>update\<close> creates a new state object at every call.
\<close>

definition counterOf :: "val \<Rightarrow> val" where
  "counterOf state =
     (if state = Ref 100 then Ref 1 else if state = Ref 101 then Ref 2
      else if state = Ref 102 then Ref 2 else if state = Ref 103 then Ref 3
      else if state = Ref 104 then Ref 3 else if state = Ref 105 then Ref 4 else Undefined)"

definition twice :: "val \<Rightarrow> val" where
  "twice v = (case v of Undefined \<Rightarrow> Undefined | Ref n \<Rightarrow> Ref (n * 2))"

definition getComponentState :: selector where
  "getComponentState = Projection 0 (\<lambda>state. state)"

definition getCounter :: selector where
  "getCounter = Memoized 1 [getComponentState] (\<lambda>inputs. counterOf (hd inputs)) None"

definition getSquareCounter :: selector where
  "getSquareCounter = Memoized 2 [getCounter] (\<lambda>inputs. twice (hd inputs)) None"

text \<open>Invoking a selector on one state after the other.\<close>

fun invokeAll :: "selector \<Rightarrow> val list \<Rightarrow> selectorEvent list" where
  "invokeAll s [] = []"
| "invokeAll s (state # states) =
     (case invoke s state of (v, s', events) \<Rightarrow> events @ invokeAll s' states)"

text \<open>The inputs that the combiner of node \<open>l\<close> was invoked with, as a spy records them.\<close>

fun combinerCalls :: "nat \<Rightarrow> selectorEvent list \<Rightarrow> val list list" where
  "combinerCalls l [] = []"
| "combinerCalls l (CombinerInvoked l' inputs # es) =
     (if l' = l then inputs # combinerCalls l es else combinerCalls l es)"
| "combinerCalls l (e # es) = combinerCalls l es"

section \<open>The combined reducer\<close>

lemma set_objectEntries [simp]: "set (objectEntries obj) = set obj"
  by (auto simp: objectEntries_def)

lemma length_objectEntries [simp]: "length (objectEntries obj) = length obj"
  by (simp add: objectEntries_def sum_length_filter_compl)

lemma length_objectKeys [simp]: "length (objectKeys obj) = length obj"
  by (simp add: objectKeys_def)

lemma set_objectKeys: "set (objectKeys obj) = fst ` set obj"
  by (simp add: objectKeys_def)

lemma distinct_objectKeys: "distinct (map fst obj) \<Longrightarrow> distinct (objectKeys obj)"
proof -
  assume d: "distinct (map fst obj)"
  let ?A = "sort_key (\<lambda>e. indexValue (fst e)) (filter (\<lambda>e. isArrayIndex (fst e)) obj)"
  let ?B = "filter (\<lambda>e. \<not> isArrayIndex (fst e)) obj"
  have inj: "inj_on fst (set obj)" and dist: "distinct obj"
    using d by (simp_all add: distinct_map)
  have "distinct (map fst ?A)"
    using inj dist by (auto simp: distinct_map intro: inj_on_subset)
  moreover have "distinct (map fst ?B)"
    using d by (rule distinct_map_filter)
  moreover have "set (map fst ?A) \<inter> set (map fst ?B) = {}"
    by auto
  ultimately show ?thesis
    by (simp add: objectKeys_def objectEntries_def)
qed

lemma objectEntries_empty [simp]: "objectEntries [] = []"
  by (simp add: objectEntries_def)

lemma objectKeys_empty [simp]: "objectKeys [] = []"
  by (simp add: objectKeys_def)

lemma filter_swap: "filter P (filter Q xs) = filter Q (filter P xs)"
  by (induction xs) auto

lemma objectEntries_filter:
  "objectEntries (filter P obj) = filter P (objectEntries obj)"
proof -
  have a: "filter (\<lambda>e. isArrayIndex (fst e)) (filter P obj) =
      filter P (filter (\<lambda>e. isArrayIndex (fst e)) obj)"
    by (rule filter_swap)
  have b: "filter (\<lambda>e. \<not> isArrayIndex (fst e)) (filter P obj) =
      filter P (filter (\<lambda>e. \<not> isArrayIndex (fst e)) obj)"
    by (rule filter_swap)
  show ?thesis
    unfolding objectEntries_def a b by (simp only: filter_append filter_sort)
qed

lemma objectEntries_keyed_map:
  "objectEntries (map (\<lambda>(k, x). (k, h k x)) (objectEntries obj)) =
     map (\<lambda>(k, x). (k, h k x)) (objectEntries obj)"
proof -
  let ?g = "\<lambda>(k, x). (k, h k x)"
  let ?A = "sort_key (\<lambda>e. indexValue (fst e)) (filter (\<lambda>e. isArrayIndex (fst e)) obj)"
  let ?B = "filter (\<lambda>e. \<not> isArrayIndex (fst e)) obj"
  have fstg: "\<And>e. fst (?g e) = fst e" by (simp add: split_beta)
  have A: "filter (\<lambda>e. isArrayIndex (fst e)) (map ?g (?A @ ?B)) = map ?g ?A"
    by (simp add: filter_map comp_def fstg filter_sort)
  have B: "filter (\<lambda>e. \<not> isArrayIndex (fst e)) (map ?g (?A @ ?B)) = map ?g ?B"
    by (simp add: filter_map comp_def fstg filter_sort)
  have "sorted (map (\<lambda>e. indexValue (fst e)) (map ?g ?A))"
    by (simp add: comp_def fstg)
  then have S: "sort_key (\<lambda>e. indexValue (fst e)) (map ?g ?A) = map ?g ?A"
    by (rule sort_key_id_if_sorted)
  have "objectEntries (map ?g (?A @ ?B)) = map ?g (?A @ ?B)"
    unfolding objectEntries_def[of "map ?g (?A @ ?B)"] A B S by simp
  then show ?thesis
    by (simp add: objectEntries_def[of obj])
qed

lemma objectEntries_plain:
  "\<forall>e \<in> set obj. \<not> isArrayIndex (fst e) \<Longrightarrow> objectEntries obj = obj"
  by (simp add: objectEntries_def)

lemma defineProp_new_key: "k \<notin> fst ` set obj \<Longrightarrow> defineProp obj k v = obj @ [(k, v)]"
  by (induction obj) auto

lemma setProp_new_key:
  "k \<notin> fst ` set obj \<Longrightarrow> k \<noteq> ''__proto__'' \<Longrightarrow> setProp obj k v = obj @ [(k, v)]"
  by (simp add: setProp_def defineProp_new_key)

lemma keys_defineProp: "fst ` set (defineProp obj k v) = insert k (fst ` set obj)"
proof (induction obj)
  case Nil
  then show ?case by simp
next
  case (Cons e obj)
  obtain k' v' where e: "e = (k', v')" by (cases e)
  show ?case
  proof (cases "k' = k")
    case True
    then show ?thesis by (simp add: e insert_absorb2)
  next
    case False
    then show ?thesis using Cons.IH by (simp add: e insert_commute)
  qed
qed

lemma keys_setProp: "fst ` set (setProp obj k v) \<subseteq> insert k (fst ` set obj)"
  by (auto simp: setProp_def keys_defineProp)

lemma combineLoop_result:
  "distinct (map fst acc @ map fst es) \<Longrightarrow> ''__proto__'' \<notin> fst ` set es \<Longrightarrow>
   combineLoop es st a (c, acc) =
     (c \<or> (\<exists>(k, r) \<in> set es. r (getProp st k) a \<noteq> getProp st k),
      acc @ map (\<lambda>(key, reducer). (key, reducer (getProp st key) a)) es)"
proof (induction es arbitrary: c acc)
  case Nil
  then show ?case by simp
next
  case (Cons kr es)
  obtain k r where kr: "kr = (k, r)" by (cases kr)
  let ?v = "r (getProp st k) a"
  have fresh_key: "k \<notin> fst ` set acc" "k \<noteq> ''__proto__''"
    using Cons.prems by (auto simp: kr)
  have rest: "distinct (map fst (acc @ [(k, ?v)]) @ map fst es)" "''__proto__'' \<notin> fst ` set es"
    using Cons.prems by (auto simp: kr)
  have unfold_once: "combineLoop (kr # es) st a (c, acc) =
      combineLoop es st a (c \<or> ?v \<noteq> getProp st k, acc @ [(k, ?v)])"
    using fresh_key by (simp add: kr Let_def setProp_new_key)
  show ?case
    unfolding unfold_once Cons.IH[OF rest]
    by (auto simp: kr)
qed

lemma combineLoop_changed:
  "fst (combineLoop es st a (c, acc)) =
     (c \<or> (\<exists>(k, r) \<in> set es. r (getProp st k) a \<noteq> getProp st k))"
proof (induction es arbitrary: c acc)
  case Nil
  then show ?case by simp
next
  case (Cons kr es)
  obtain k r where kr: "kr = (k, r)" by (cases kr)
  show ?case
    using Cons.IH[of "c \<or> r (getProp st k) a \<noteq> getProp st k" "setProp acc k (r (getProp st k) a)"]
    by (auto simp: kr Let_def)
qed

lemma combineLoop_keys:
  "fst ` set (snd (combineLoop es st a (c, acc))) \<subseteq> fst ` set acc \<union> fst ` set es"
proof (induction es arbitrary: c acc)
  case Nil
  then show ?case by simp
next
  case (Cons kr es)
  obtain k r where kr: "kr = (k, r)" by (cases kr)
  let ?acc = "setProp acc k (r (getProp st k) a)"
  let ?c = "c \<or> r (getProp st k) a \<noteq> getProp st k"
  have step: "combineLoop (kr # es) st a (c, acc) = combineLoop es st a (?c, ?acc)"
    by (simp add: kr Let_def)
  have "fst ` set (snd (combineLoop es st a (?c, ?acc))) \<subseteq> fst ` set ?acc \<union> fst ` set es"
    by (rule Cons.IH)
  moreover have "fst ` set ?acc \<subseteq> insert k (fst ` set acc)"
    by (rule keys_setProp)
  moreover have "fst ` set (kr # es) = insert k (fst ` set es)"
    by (simp add: kr)
  ultimately show ?case
    unfolding step by blast
qed

lemma combineReducers_result:
  assumes "distinct (objectKeys rs)" and "''__proto__'' \<notin> set (objectKeys rs)"
  shows "combineReducers rs fresh (Some s) a =
     (if length (objectKeys (props s)) = length (objectKeys rs) \<and>
         (\<forall>(k, r) \<in> set rs. r (getProp (props s) k) a = getProp (props s) k)
      then s else \<lparr>ident = Suc fresh, props = reducedProps rs (props s) a\<rparr>)"
proof -
  have d: "distinct (map fst [] @ map fst (objectEntries rs))"
    using assms(1) by (simp add: objectKeys_def)
  have p: "''__proto__'' \<notin> fst ` set (objectEntries rs)"
    using assms(2) by (simp add: objectKeys_def)
  show ?thesis
    using combineLoop_result[OF d p, of "props s" a]
    by (auto simp: combineReducers_def Let_def reducedProps_def)
qed

lemma combineReducers_count_differs:
  assumes "length (objectKeys (props st)) \<noteq> length (objectKeys rs)"
  shows "set (objectKeys (props (combineReducers rs fresh (Some st) a))) \<subseteq> set (objectKeys rs)"
proof -
  obtain c n where loop: "combineLoop (objectEntries rs) (props st) a (True, []) = (c, n)"
    by (cases "combineLoop (objectEntries rs) (props st) a (True, [])")
  have c: "c"
    using combineLoop_changed[of "objectEntries rs" "props st" a True "[]"] loop by simp
  have n: "fst ` set n \<subseteq> fst ` set rs"
    using combineLoop_keys[of "objectEntries rs" "props st" a True "[]"] loop by simp
  show ?thesis
    using assms loop c n by (simp add: combineReducers_def Let_def set_objectKeys)
qed

lemma objectKeys_reducedProps: "objectKeys (reducedProps rs st a) = objectKeys rs"
  unfolding reducedProps_def objectKeys_def[of "map _ _"]
  by (simp add: objectEntries_keyed_map[of "\<lambda>k r. r (getProp st k) a"] objectKeys_def comp_def split_beta)

lemma objectKeys_filter:
  "objectKeys (filter (\<lambda>(k, r). k \<noteq> key) obj) = filter (\<lambda>k. k \<noteq> key) (objectKeys obj)"
  by (simp add: objectKeys_def objectEntries_filter filter_map comp_def case_prod_unfold)



lemma objectKeys_eq_Nil [simp]: "(objectKeys obj = []) = (obj = [])"
  using length_objectKeys[of obj] by (metis length_0_conv)

lemma distinct_objectKeys_iff: "distinct (objectKeys obj) = distinct (map fst obj)"
proof -
  have s: "set (objectKeys obj) = set (map fst obj)" by (simp add: set_objectKeys)
  have l: "length (objectKeys obj) = length (map fst obj)" by simp
  show ?thesis
    using s l by (metis card_distinct distinct_card)
qed

lemma objectKeys_defineProp_new:
  assumes "k \<notin> set (objectKeys obj)"
  shows "set (objectKeys (defineProp obj k v)) = insert k (set (objectKeys obj))"
    and "length (objectKeys (defineProp obj k v)) = Suc (length (objectKeys obj))"
    and "distinct (objectKeys (defineProp obj k v)) = distinct (objectKeys obj)"
proof -
  have nk: "k \<notin> fst ` set obj" using assms by (simp add: set_objectKeys)
  have new: "defineProp obj k v = obj @ [(k, v)]" by (rule defineProp_new_key[OF nk])
  show "set (objectKeys (defineProp obj k v)) = insert k (set (objectKeys obj))"
    by (simp add: new set_objectKeys)
  show "length (objectKeys (defineProp obj k v)) = Suc (length (objectKeys obj))"
    by (simp add: new)
  show "distinct (objectKeys (defineProp obj k v)) = distinct (objectKeys obj)"
    using nk by (simp add: new distinct_objectKeys_iff)
qed

lemmas objectKeys_eval =
  objectKeys_def objectEntries_def isArrayIndex_def isDigit_def indexValue_def

text \<open>
  \<open>Object.keys\<close> on an object with array-index keys (\<open>01\<close> is not one), and the
  combined reducer on a dictionary with the own key \<open>__proto__\<close>: the assignment to
  \<open>nextState\<close> creates no own key, so that the new snapshot lacks a registered key.
  The theorems on the combined reducer are therefore stated without that key.
\<close>

lemma objectKeys_order:
  "objectKeys [(''b'', Ref 1), (''10'', Ref 2), (''2'', Ref 3), (''a'', Ref 4), (''01'', Ref 5),
     (''0'', Ref 6)] = [''0'', ''2'', ''10'', ''b'', ''a'', ''01'']"
  by (simp add: objectKeys_eval)

lemma combineReducers_proto_key:
  "combineReducers [(''__proto__'', identityReducer)] 1 (Some \<lparr>ident = 0, props = []\<rparr>)
     \<lparr>type = ''x'', payload = Undefined\<rparr> = \<lparr>ident = 2, props = []\<rparr>"
  by (simp add: combineReducers_def objectKeys_eval getProp_def setProp_def
        objectPrototypeMembers_def identityReducer_def)

text \<open>
  C2, as the claim states it, fails: with the single registered key \<open>a\<close>, whose reducer
  returns the \<open>undefined\<close> it is given, and the snapshot \<open>{b: Ref 1}\<close>, the key sets
  differ, and the combined reducer still returns the snapshot it was given: the same
  reference, not a new mapping with key \<open>a\<close>.
\<close>

theorem combineReducers_key_set_counterexample:
  "set (objectKeys [(''a'', identityReducer)]) \<noteq> set (objectKeys [(''b'', Ref 1)]) \<and>
   combineReducers [(''a'', identityReducer)] 1 (Some \<lparr>ident = 0, props = [(''b'', Ref 1)]\<rparr>)
     \<lparr>type = ''x'', payload = Undefined\<rparr> = \<lparr>ident = 0, props = [(''b'', Ref 1)]\<rparr>"
  by (simp add: combineReducers_def objectKeys_eval getProp_def objectPrototypeMembers_def
        identityReducer_def)

text \<open>
  C2, amended: the combined reducer compares the number of keys, not the key sets. For
  a snapshot that is a plain object and registered keys (the own keys of the reducer
  dictionary) other than \<open>__proto__\<close>: if every registered slice reducer returns a
  value reference-equal to \<open>s[key]\<close>, the slice's previous value (read as JavaScript
  reads it: the own property, or else the member of \<open>Object.prototype\<close> of that name,
  or else \<open>undefined\<close>), and the snapshot has as many own keys as there are registered
  keys, the combined reducer returns the same snapshot reference; otherwise it returns a
  new object (the identity \<open>Suc fresh\<close>) that maps every registered key to its
  reducer's result, in the order of \<open>Object.keys\<close>. The new object is not the
  snapshot, whose identity was allocated before.
\<close>

theorem combineReducers_no_op_detection:
  assumes "distinct (objectKeys rs)" and "''__proto__'' \<notin> set (objectKeys rs)"
  shows "combineReducers rs fresh (Some s) a =
     (if length (objectKeys (props s)) = length (objectKeys rs) \<and>
         (\<forall>(k, r) \<in> set rs. r (getProp (props s) k) a = getProp (props s) k)
      then s
      else \<lparr>ident = Suc fresh, props = reducedProps rs (props s) a\<rparr>) \<and>
     (ident s \<le> fresh \<longrightarrow>
        (combineReducers rs fresh (Some s) a = s) =
        (length (objectKeys (props s)) = length (objectKeys rs) \<and>
         (\<forall>(k, r) \<in> set rs. r (getProp (props s) k) a = getProp (props s) k)))"
proof -
  have differs: "ident s \<le> fresh \<Longrightarrow>
      \<lparr>ident = Suc fresh, props = reducedProps rs (props s) a\<rparr> \<noteq> s"
    by (cases s) simp
  show ?thesis
    unfolding combineReducers_result[OF assms] using differs by simp
qed

theorem combineReducers_no_op_detection_witness:
  "distinct (objectKeys [(''a'', identityReducer), (''toString'', identityReducer)]) \<and>
   ''__proto__'' \<notin> set (objectKeys [(''a'', identityReducer), (''toString'', identityReducer)]) \<and>
   combineReducers [(''a'', identityReducer), (''toString'', identityReducer)] 1
     (Some \<lparr>ident = 0, props = [(''a'', Ref 1), (''b'', Ref 2)]\<rparr>)
     \<lparr>type = ''x'', payload = Undefined\<rparr> = \<lparr>ident = 0, props = [(''a'', Ref 1), (''b'', Ref 2)]\<rparr> \<and>
   combineReducers [(''a'', identityReducer), (''toString'', identityReducer)] 1
     (Some \<lparr>ident = 0, props = [(''b'', Ref 2)]\<rparr>)
     \<lparr>type = ''x'', payload = Undefined\<rparr> =
       \<lparr>ident = 2, props = [(''a'', Undefined), (''toString'', Inherited ''toString'')]\<rparr> \<and>
   combineReducers [(''a'', identityReducer)] 1 (Some \<lparr>ident = 0, props = [(''a'', Ref 1)]\<rparr>)
     \<lparr>type = ''x'', payload = Undefined\<rparr> = \<lparr>ident = 0, props = [(''a'', Ref 1)]\<rparr> \<and>
   combineReducers [(''a'', identityReducer)] 1 (Some \<lparr>ident = 0, props = []\<rparr>)
     \<lparr>type = ''x'', payload = Undefined\<rparr> = \<lparr>ident = 2, props = [(''a'', Undefined)]\<rparr> \<and>
   combineReducers [(''a'', identityReducer)] 1 (Some \<lparr>ident = 0, props = []\<rparr>)
     \<lparr>type = ''x'', payload = Undefined\<rparr> \<noteq> \<lparr>ident = 0, props = []\<rparr>"
proof -
  have d: "distinct (objectKeys [(''a'', identityReducer), (''toString'', identityReducer)])"
    by (simp add: objectKeys_eval)
  have p: "''__proto__'' \<notin> set (objectKeys [(''a'', identityReducer), (''toString'', identityReducer)])"
    by (simp add: objectKeys_eval)
  have d1: "distinct (objectKeys [(''a'', identityReducer)])"
    by (simp add: objectKeys_eval)
  have p1: "''__proto__'' \<notin> set (objectKeys [(''a'', identityReducer)])"
    by (simp add: objectKeys_eval)
  show ?thesis
    using d p
      combineReducers_no_op_detection
        [OF d p, of 1 "\<lparr>ident = 0, props = [(''a'', Ref 1), (''b'', Ref 2)]\<rparr>"
           "\<lparr>type = ''x'', payload = Undefined\<rparr>"]
      combineReducers_no_op_detection
        [OF d p, of 1 "\<lparr>ident = 0, props = [(''b'', Ref 2)]\<rparr>" "\<lparr>type = ''x'', payload = Undefined\<rparr>"]
      combineReducers_no_op_detection
        [OF d1 p1, of 1 "\<lparr>ident = 0, props = [(''a'', Ref 1)]\<rparr>" "\<lparr>type = ''x'', payload = Undefined\<rparr>"]
      combineReducers_no_op_detection
        [OF d1 p1, of 1 "\<lparr>ident = 0, props = []\<rparr>" "\<lparr>type = ''x'', payload = Undefined\<rparr>"]
    by (simp add: objectKeys_eval getProp_def objectPrototypeMembers_def identityReducer_def
          reducedProps_def)
qed

section \<open>The action queue is first in, first out\<close>

lemma dispatchedOf_append: "dispatchedOf (xs @ ys) = dispatchedOf xs @ dispatchedOf ys"
  by (induction xs rule: dispatchedOf.induct) simp_all

lemma processedOf_append: "processedOf (xs @ ys) = processedOf xs @ processedOf ys"
  by (induction xs rule: processedOf.induct) simp_all

lemma deliveries_append: "deliveries (xs @ ys) = deliveries xs @ deliveries ys"
  by (induction xs rule: deliveries.induct) simp_all

lemma dispatched_events:
  "dispatchedOf (map Dispatched as) = as"
  "processedOf (map Dispatched as) = []"
  "deliveries (map Dispatched as) = []"
  by (induction as) simp_all

lemma dispatchWith_while_draining:
  "draining q \<Longrightarrow> dispatchWith d a q = enqueue a q"
  by (simp add: dispatchWith_def enqueue_def Let_def)

lemma nested_dispatches:
  "draining q \<Longrightarrow>
   fold (dispatchWith d) out q = q\<lparr>buffer := buffer q @ out, trace := trace q @ map Dispatched out\<rparr>"
proof (induction out arbitrary: q)
  case Nil
  then show ?case by simp
next
  case (Cons a out)
  have "draining (enqueue a q)" using Cons.prems by (simp add: enqueue_def)
  then show ?case
    using Cons.IH[of "enqueue a q"] Cons.prems
    by (simp add: dispatchWith_while_draining enqueue_def)
qed

lemma notify_while_draining:
  assumes "draining q"
  shows "notify (dispatchWith d) a isub q =
     q\<lparr>subscriberState := fst (snd isub a (subscriberState q)),
       buffer := buffer q @ snd (snd isub a (subscriberState q)),
       trace := trace q @ map Dispatched (snd (snd isub a (subscriberState q))) @
                  [Notified (fst isub) a]\<rparr>"
  using assms by (simp add: notify_def split_beta Let_def nested_dispatches)

lemma notify_all_while_draining:
  assumes "draining q"
  shows "\<exists>out. buffer (fold (notify (dispatchWith d) a) isubs q) = buffer q @ out \<and>
     dispatchedOf (trace (fold (notify (dispatchWith d) a) isubs q)) = dispatchedOf (trace q) @ out \<and>
     deliveries (trace (fold (notify (dispatchWith d) a) isubs q)) =
       deliveries (trace q) @ map (\<lambda>i. Notified i a) (map fst isubs) \<and>
     processedOf (trace (fold (notify (dispatchWith d) a) isubs q)) = processedOf (trace q) \<and>
     draining (fold (notify (dispatchWith d) a) isubs q)"
  using assms
proof (induction isubs arbitrary: q)
  case Nil
  then show ?case by simp
next
  case (Cons isub isubs)
  let ?q1 = "notify (dispatchWith d) a isub q"
  let ?out1 = "snd (snd isub a (subscriberState q))"
  have q1: "buffer ?q1 = buffer q @ ?out1"
    "trace ?q1 = trace q @ map Dispatched ?out1 @ [Notified (fst isub) a]"
    "draining ?q1"
    using Cons.prems by (simp_all add: notify_while_draining)
  from Cons.IH[OF q1(3)] obtain out where out:
    "buffer (fold (notify (dispatchWith d) a) isubs ?q1) = buffer ?q1 @ out"
    "dispatchedOf (trace (fold (notify (dispatchWith d) a) isubs ?q1)) = dispatchedOf (trace ?q1) @ out"
    "deliveries (trace (fold (notify (dispatchWith d) a) isubs ?q1)) =
       deliveries (trace ?q1) @ map (\<lambda>i. Notified i a) (map fst isubs)"
    "processedOf (trace (fold (notify (dispatchWith d) a) isubs ?q1)) = processedOf (trace ?q1)"
    "draining (fold (notify (dispatchWith d) a) isubs ?q1)"
    by blast
  show ?case
    apply (rule exI[of _ "?out1 @ out"])
    using out q1
    by (simp add: dispatchedOf_append deliveries_append processedOf_append dispatched_events)
qed

lemma processAction_while_draining:
  assumes "draining q"
  shows "\<exists>out. buffer (processAction (dispatchWith d) subs a q) = buffer q @ out \<and>
     dispatchedOf (trace (processAction (dispatchWith d) subs a q)) = dispatchedOf (trace q) @ out \<and>
     deliveries (trace (processAction (dispatchWith d) subs a q)) =
       deliveries (trace q) @ processingOf (length subs) a \<and>
     processedOf (trace (processAction (dispatchWith d) subs a q)) = processedOf (trace q) @ [a] \<and>
     draining (processAction (dispatchWith d) subs a q)"
proof -
  from notify_all_while_draining[OF assms, of d a "enumerate 0 subs"]
  obtain out where out:
    "buffer (fold (notify (dispatchWith d) a) (enumerate 0 subs) q) = buffer q @ out"
    "dispatchedOf (trace (fold (notify (dispatchWith d) a) (enumerate 0 subs) q)) = dispatchedOf (trace q) @ out"
    "deliveries (trace (fold (notify (dispatchWith d) a) (enumerate 0 subs) q)) =
       deliveries (trace q) @ map (\<lambda>i. Notified i a) (map fst (enumerate 0 subs))"
    "processedOf (trace (fold (notify (dispatchWith d) a) (enumerate 0 subs) q)) = processedOf (trace q)"
    "draining (fold (notify (dispatchWith d) a) (enumerate 0 subs) q)"
    by blast
  show ?thesis
    apply (rule exI[of _ out])
    using out
    by (simp add: processAction_def Let_def dispatchedOf_append deliveries_append
          processedOf_append processingOf_def)
qed

lemma drainLoop_ordered:
  "ordered (length subs) q \<Longrightarrow> draining q \<Longrightarrow>
   ordered (length subs) (drainLoop n subs q) \<and>
   settled (length (processedOf (trace q)) + n) (drainLoop n subs q)"
proof (induction n arbitrary: q)
  case 0
  then show ?case by (simp add: settled_def)
next
  case (Suc n)
  show ?case
  proof (cases "buffer q")
    case Nil
    then show ?thesis using Suc.prems by (simp add: ordered_def settled_def)
  next
    case (Cons a rest)
    let ?q0 = "q\<lparr>buffer := rest\<rparr>"
    let ?q1 = "processAction (dispatchWith (drainLoop n subs)) subs a ?q0"
    have "draining ?q0" using Suc.prems by simp
    from processAction_while_draining[OF this, of "drainLoop n subs" subs a]
    obtain out where out:
      "buffer ?q1 = rest @ out"
      "dispatchedOf (trace ?q1) = dispatchedOf (trace q) @ out"
      "deliveries (trace ?q1) = deliveries (trace q) @ processingOf (length subs) a"
      "processedOf (trace ?q1) = processedOf (trace q) @ [a]"
      "draining ?q1"
      by auto
    have "ordered (length subs) ?q1"
      using Suc.prems(1) Cons out by (simp add: ordered_def)
    from Suc.IH[OF this out(5)] show ?thesis
      by (simp add: Cons out(4))
  qed
qed

lemma settled_less: "settled m q \<Longrightarrow> n \<le> m \<Longrightarrow> settled n q"
  by (simp add: settled_def split: if_splits)

lemma dispatchOnQueue_ordered:
  assumes "ordered (length subs) q" "settled n q"
  shows "ordered (length subs) (dispatchOnQueue n subs a q) \<and> settled n (dispatchOnQueue n subs a q)"
proof (cases "draining q")
  case True
  then show ?thesis
    using assms
    by (simp add: dispatchOnQueue_def dispatchWith_while_draining enqueue_def ordered_def settled_def
          dispatchedOf_append deliveries_append processedOf_append)
next
  case False
  let ?q1 = "(enqueue a q)\<lparr>draining := True\<rparr>"
  have "ordered (length subs) ?q1"
    using assms False
    by (simp add: enqueue_def ordered_def settled_def dispatchedOf_append deliveries_append
          processedOf_append)
  from drainLoop_ordered[OF this, of n]
  have "ordered (length subs) (drainLoop n subs ?q1)"
    "settled (length (processedOf (trace ?q1)) + n) (drainLoop n subs ?q1)"
    by simp_all
  then show ?thesis
    using False settled_less[of "length (processedOf (trace ?q1)) + n" "drainLoop n subs ?q1" n]
    by (simp add: dispatchOnQueue_def dispatchWith_def Let_def enqueue_def)
qed

lemma dispatches_ordered:
  "ordered (length subs) q \<Longrightarrow> settled n q \<Longrightarrow>
   ordered (length subs) (fold (dispatchOnQueue n subs) as q) \<and>
   settled n (fold (dispatchOnQueue n subs) as q)"
proof (induction as arbitrary: q)
  case Nil
  then show ?case by simp
next
  case (Cons a as)
  then show ?case using dispatchOnQueue_ordered[of subs q n a] by simp
qed

text \<open>
  C1: whatever the subscribers dispatch while they are notified, and however long the
  processing loop has run, the actions dispatched so far (from outside or re-entrantly)
  are, in dispatch order, the actions processed followed by the actions still buffered:
  none is dropped and none overtakes another. The notifications come in uninterrupted
  blocks, one per processed action: all subscribers are notified of an action, then its
  processing ends, and only then the next action is taken. After \<open>n\<close> iterations per
  dispatch from outside the buffer is empty, or \<open>n\<close> actions have been processed.
\<close>

theorem queue_is_fifo:
  "dispatchedOf (trace (fold (dispatchOnQueue n subs) as (createActionsOnQueue st))) =
     processedOf (trace (fold (dispatchOnQueue n subs) as (createActionsOnQueue st))) @
     buffer (fold (dispatchOnQueue n subs) as (createActionsOnQueue st)) \<and>
   deliveries (trace (fold (dispatchOnQueue n subs) as (createActionsOnQueue st))) =
     concat (map (processingOf (length subs))
       (processedOf (trace (fold (dispatchOnQueue n subs) as (createActionsOnQueue st))))) \<and>
   (if draining (fold (dispatchOnQueue n subs) as (createActionsOnQueue st))
    then n \<le> length (processedOf (trace (fold (dispatchOnQueue n subs) as (createActionsOnQueue st))))
    else buffer (fold (dispatchOnQueue n subs) as (createActionsOnQueue st)) = [])"
proof -
  have "ordered (length subs) (createActionsOnQueue st :: ('a, 'b) ActionsOnQueue)"
    "settled n (createActionsOnQueue st :: ('a, 'b) ActionsOnQueue)"
    by (simp_all add: ordered_def settled_def createActionsOnQueue_def)
  from dispatches_ordered[OF this, of as] show ?thesis
    by (simp add: ordered_def settled_def)
qed

theorem queue_is_fifo_witness:
  "\<not> draining (fold (dispatchOnQueue 10 [counting, chaining]) [1, 5] (createActionsOnQueue 0)) \<and>
   buffer (fold (dispatchOnQueue 10 [counting, chaining]) [1, 5] (createActionsOnQueue 0)) = [] \<and>
   dispatchedOf (trace (fold (dispatchOnQueue 10 [counting, chaining]) [1, 5]
     (createActionsOnQueue 0))) = [1, 2, 3, 4, 5] \<and>
   processedOf (trace (fold (dispatchOnQueue 10 [counting, chaining]) [1, 5]
     (createActionsOnQueue 0))) = [1, 2, 3, 4, 5]"
proof -
  have t: "trace (fold (dispatchOnQueue 10 [counting, chaining]) [1, 5] (createActionsOnQueue 0)) =
     [Dispatched 1, Notified 0 1, Dispatched 2, Dispatched 3, Notified 1 1,
      Processed 1, Notified 0 2, Dispatched 4, Notified 1 2, Processed 2,
      Notified 0 3, Notified 1 3, Processed 3, Notified 0 4, Notified 1 4,
      Processed 4, Dispatched 5, Notified 0 5, Notified 1 5, Processed 5]"
    by code_simp
  have d: "\<not> draining (fold (dispatchOnQueue 10 [counting, chaining]) [1, 5]
     (createActionsOnQueue 0))"
    by code_simp
  show ?thesis
    using d queue_is_fifo[of 10 "[counting, chaining]" "[1, 5]" 0] unfolding t by simp
qed

section \<open>The store on the queue\<close>

text \<open>
  With the reducer callbacks as its only subscribers, a dispatch from outside on an idle
  queue leaves the state that \<open>dispatch\<close> of the store computes; two iterations of the
  loop are enough.
\<close>

lemma notify_reducerSubscriber:
  "snd isub = reducerSubscriber \<Longrightarrow>
   notify d a isub q =
     q\<lparr>subscriberState := onAction a (subscriberState q),
       trace := trace q @ [Notified (fst isub) a]\<rparr>"
  by (simp add: notify_def reducerSubscriber_def)

lemma notify_reducerSubscribers:
  "\<forall>isub \<in> set isubs. snd isub = reducerSubscriber \<Longrightarrow>
   subscriberState (fold (notify d a) isubs q) = (onAction a ^^ length isubs) (subscriberState q) \<and>
   buffer (fold (notify d a) isubs q) = buffer q \<and>
   draining (fold (notify d a) isubs q) = draining q"
proof (induction isubs arbitrary: q)
  case Nil
  then show ?case by simp
next
  case (Cons isub isubs)
  then show ?case
    by (simp add: notify_reducerSubscriber funpow_swap1)
qed

lemma dispatch_through_queue:
  "subscriberState
     (dispatchOnQueue (Suc (Suc n)) (replicate (subscriptions s) reducerSubscriber) action
        (createActionsOnQueue (s\<lparr>dispatched := dispatched s @ [action]\<rparr>))) =
   dispatch action s"
proof -
  let ?subs = "replicate (subscriptions s) reducerSubscriber"
  have all: "\<forall>isub \<in> set (enumerate 0 ?subs). snd isub = reducerSubscriber"
    by (auto simp: in_set_enumerate_eq)
  show ?thesis
    using notify_reducerSubscribers[OF all]
    by (simp add: dispatchOnQueue_def dispatchWith_def enqueue_def createActionsOnQueue_def
          processAction_def Let_def dispatch_def)
qed

section \<open>Stepping the store\<close>

lemma getReducerManager_fields [simp]:
  "subscriptions (snd (getReducerManager s)) = subscriptions s"
  "actionSubscription (snd (getReducerManager s)) = actionSubscription s"
  "isStoreConfigured (snd (getReducerManager s)) = isStoreConfigured s"
  "hasUndoExtension (snd (getReducerManager s)) = hasUndoExtension s"
  "dispatched (snd (getReducerManager s)) = dispatched s"
  "reductions (snd (getReducerManager s)) = reductions s"
  "appState (snd (getReducerManager s)) = appState s"
  "nextIdent (snd (getReducerManager s)) = nextIdent s"
  "reducerManager (snd (getReducerManager s)) = Some (fst (getReducerManager s))"
  by (simp_all add: getReducerManager_def split: option.splits)

lemma updateReducerManager_fields [simp]:
  "subscriptions (updateReducerManager f s) = subscriptions s"
  "actionSubscription (updateReducerManager f s) = actionSubscription s"
  "isStoreConfigured (updateReducerManager f s) = isStoreConfigured s"
  "hasUndoExtension (updateReducerManager f s) = hasUndoExtension s"
  "dispatched (updateReducerManager f s) = dispatched s"
  "reductions (updateReducerManager f s) = reductions s"
  "appState (updateReducerManager f s) = appState s"
  "nextIdent (updateReducerManager f s) = nextIdent s"
  "reducerManager (updateReducerManager f s) = Some (f (fst (getReducerManager s)))"
  by (simp_all add: updateReducerManager_def split_beta)

lemma onAction_fields [simp]:
  "subscriptions (onAction a s) = subscriptions s"
  "actionSubscription (onAction a s) = actionSubscription s"
  "isStoreConfigured (onAction a s) = isStoreConfigured s"
  "hasUndoExtension (onAction a s) = hasUndoExtension s"
  "dispatched (onAction a s) = dispatched s"
  "map reducedAction (reductions (onAction a s)) = map reducedAction (reductions s) @ [a]"
  "reducerManager (onAction a s) = Some (fst (getReducerManager s))"
  by (simp_all add: onAction_def split_beta Let_def)

lemma initStore_fields [simp]:
  "isStoreConfigured (initStore s) = isStoreConfigured s"
  "hasUndoExtension (initStore s) = hasUndoExtension s"
  "dispatched (initStore s) = dispatched s"
  "reductions (initStore s) = reductions s"
  "appState (initStore s) = appState s"
  "nextIdent (initStore s) = nextIdent s"
  "reducerManager (initStore s) = reducerManager s"
  "actionSubscription (initStore s)"
  by (simp_all add: initStore_def)

lemma initStore_wired: "wired s \<Longrightarrow> wired (initStore s) \<and> subscriptions (initStore s) = 1"
  by (simp add: wired_def initStore_def)

lemma dispatch_unsubscribed:
  "subscriptions s = 0 \<Longrightarrow> dispatch a s = s\<lparr>dispatched := dispatched s @ [a]\<rparr>"
  by (simp add: dispatch_def)

lemma dispatch_subscribed_once:
  "subscriptions s = Suc 0 \<Longrightarrow> dispatch a s = onAction a (s\<lparr>dispatched := dispatched s @ [a]\<rparr>)"
  by (simp add: dispatch_def)

lemma funpow_onAction_fields [simp]:
  "subscriptions ((onAction a ^^ n) s) = subscriptions s"
  "actionSubscription ((onAction a ^^ n) s) = actionSubscription s"
  "isStoreConfigured ((onAction a ^^ n) s) = isStoreConfigured s"
  "hasUndoExtension ((onAction a ^^ n) s) = hasUndoExtension s"
  "dispatched ((onAction a ^^ n) s) = dispatched s"
  by (induction n) simp_all

lemma dispatch_fields [simp]:
  "subscriptions (dispatch a s) = subscriptions s"
  "actionSubscription (dispatch a s) = actionSubscription s"
  "isStoreConfigured (dispatch a s) = isStoreConfigured s"
  "hasUndoExtension (dispatch a s) = hasUndoExtension s"
  "dispatched (dispatch a s) = dispatched s @ [a]"
  by (simp_all add: dispatch_def)

lemma dispatch_reduced_once:
  "subscriptions s = Suc 0 \<Longrightarrow>
   map reducedAction (reductions (dispatch a s)) = map reducedAction (reductions s) @ [a]"
  by (simp add: dispatch_subscribed_once)

lemma addExtension_fields [simp]:
  "subscriptions (addExtension e s) = subscriptions s"
  "actionSubscription (addExtension e s) = actionSubscription s"
  "isStoreConfigured (addExtension e s) = isStoreConfigured s"
  "dispatched (addExtension e s) = dispatched s"
  "reductions (addExtension e s) = reductions s"
  by (simp_all add: addExtension_def Let_def split: option.splits)

lemma fold_addExtension_fields [simp]:
  "subscriptions (fold addExtension es s) = subscriptions s"
  "actionSubscription (fold addExtension es s) = actionSubscription s"
  "isStoreConfigured (fold addExtension es s) = isStoreConfigured s"
  "dispatched (fold addExtension es s) = dispatched s"
  "reductions (fold addExtension es s) = reductions s"
  by (induction es arbitrary: s) simp_all

lemma configureStoreCore_wired:
  "wired s \<Longrightarrow> wired (snd (configureStoreCore c s))"
  by (auto simp: configureStoreCore_def Let_def split_beta wired_def initStore_def split: option.splits)

lemma initStore_subscribed:
  "wired s \<Longrightarrow> subscriptions (initStore s) = Suc 0"
  by (simp add: wired_def initStore_def)

lemma configureStoreCore_steady:
  assumes "wired s" "n \<le> length (dispatched s)"
    "map reducedAction (reductions s) = drop n (dispatched s)"
  shows "steady n (snd (configureStoreCore c s))"
  using assms initStore_subscribed[OF assms(1)]
  by (auto simp: configureStoreCore_def Let_def split_beta steady_def dispatch_reduced_once
           split: option.splits)

lemma addFeature_steady:
  assumes "wired s" "n \<le> length (dispatched s)"
    "map reducedAction (reductions s) = drop n (dispatched s)"
  shows "steady n (snd (addFeature k r m i s))"
  using assms initStore_subscribed[OF assms(1)]
  by (auto simp: addFeature_def Let_def split_beta steady_def dispatch_reduced_once
           split: sum.splits)

lemma steady_wired: "steady n s \<Longrightarrow> wired s"
  by (simp add: steady_def wired_def)

lemma configureStore_steady:
  assumes "wired s" "n \<le> length (dispatched s)"
    "map reducedAction (reductions s) = drop n (dispatched s)"
  shows "\<not> isStoreConfigured s \<Longrightarrow> steady n (snd (configureStore c s))"
  using configureStoreCore_steady[OF assms, of c]
  by (auto simp: configureStore_def steady_def split: prod.splits sum.splits)

lemma perform_steady: "steady n s \<Longrightarrow> steady n (perform c s)"
proof (cases c)
  case (ConfigureStore cfg)
  assume st: "steady n s"
  then have pre: "n \<le> length (dispatched s)"
    "map reducedAction (reductions s) = drop n (dispatched s)"
    by (simp_all add: steady_def)
  show ?thesis
  proof (cases "isStoreConfigured s")
    case True
    then show ?thesis using st by (simp add: ConfigureStore configureStore_def)
  next
    case False
    then show ?thesis
      using configureStore_steady[OF steady_wired[OF st] pre, of cfg]
      by (simp add: ConfigureStore)
  qed
next
  case (ConfigureStoreCore cfg)
  assume st: "steady n s"
  then have pre: "n \<le> length (dispatched s)"
    "map reducedAction (reductions s) = drop n (dispatched s)"
    by (simp_all add: steady_def)
  show ?thesis
    using configureStoreCore_steady[OF steady_wired[OF st] pre, of cfg]
    by (simp add: ConfigureStoreCore)
next
  case (AddFeature k r m i)
  assume st: "steady n s"
  then have pre: "n \<le> length (dispatched s)"
    "map reducedAction (reductions s) = drop n (dispatched s)"
    by (simp_all add: steady_def)
  show ?thesis
    using addFeature_steady[OF steady_wired[OF st] pre, of k r m i]
    by (simp add: AddFeature)
next
  case (RemoveFeature k)
  assume "steady n s"
  then show ?thesis
    by (simp add: RemoveFeature removeFeature_def steady_def dispatch_reduced_once)
next
  case (Dispatch a)
  assume "steady n s"
  then show ?thesis
    by (simp add: Dispatch steady_def dispatch_reduced_once)
qed

lemma run_steady: "steady n s \<Longrightarrow> steady n (run cs s)"
  unfolding run_def by (induction cs arbitrary: s) (simp_all add: perform_steady)

lemma perform_wired: "wired s \<Longrightarrow> wired (perform c s)"
proof (cases c)
  case (ConfigureStore cfg)
  assume "wired s"
  then show ?thesis
    using configureStoreCore_wired[of s cfg]
    by (auto simp: ConfigureStore configureStore_def wired_def split: prod.splits sum.splits)
next
  case (ConfigureStoreCore cfg)
  assume "wired s"
  then show ?thesis
    using configureStoreCore_wired[of s cfg] by (simp add: ConfigureStoreCore)
next
  case (AddFeature k r m i)
  assume "wired s"
  then show ?thesis
    by (auto simp: AddFeature addFeature_def Let_def split_beta wired_def initStore_def split: sum.splits)
next
  case (RemoveFeature k)
  assume "wired s"
  then show ?thesis by (simp add: RemoveFeature removeFeature_def wired_def)
next
  case (Dispatch a)
  assume "wired s"
  then show ?thesis by (simp add: Dispatch wired_def)
qed

lemma run_wired: "wired s \<Longrightarrow> wired (run cs s)"
  unfolding run_def by (induction cs arbitrary: s) (simp_all add: perform_wired)

lemma initialStore_wired: "wired initialStore"
  by (simp add: wired_def initialStore_def)

lemma initialStore_idle: "idle initialStore"
  by (simp add: idle_def initialStore_def)

lemma idle_wired: "idle s \<Longrightarrow> wired s"
  by (simp add: idle_def wired_def)

lemma perform_idle:
  assumes "idle s" "\<not> initialising c"
  shows "idle (perform c s)" and "length (dispatched s) \<le> length (dispatched (perform c s))"
proof -
  have zero: "subscriptions s = 0" using assms(1) by (simp add: idle_def)
  then have zero': "subscriptions (updateReducerManager f s) = 0" for f by simp
  show "idle (perform c s)"
    using assms
    by (cases c)
      (simp_all add: initialising_def idle_def removeFeature_def
         dispatch_unsubscribed[OF zero] dispatch_unsubscribed[OF zero'])
  show "length (dispatched s) \<le> length (dispatched (perform c s))"
    using assms(2) by (cases c) (simp_all add: initialising_def removeFeature_def)
qed

lemma run_idle: "idle s \<Longrightarrow> list_all (\<lambda>c. \<not> initialising c) cs \<Longrightarrow> idle (run cs s)"
  unfolding run_def by (induction cs arbitrary: s) (simp_all add: perform_idle)

lemma first_call_steady:
  assumes "idle s" "initialising c"
  shows "steady (length (dispatched s)) (perform c s)"
proof -
  have w: "wired s" by (rule idle_wired[OF assms(1)])
  have pre: "length (dispatched s) \<le> length (dispatched s)"
    "map reducedAction (reductions s) = drop (length (dispatched s)) (dispatched s)"
    using assms(1) by (simp_all add: idle_def)
  have fresh: "\<not> isStoreConfigured s" using assms(1) by (simp add: idle_def)
  show ?thesis
  proof (cases c)
    case (ConfigureStore cfg)
    show ?thesis
      using configureStore_steady[OF w pre fresh, of cfg] by (simp add: ConfigureStore)
  next
    case (ConfigureStoreCore cfg)
    show ?thesis
      using configureStoreCore_steady[OF w pre, of cfg] by (simp add: ConfigureStoreCore)
  next
    case (AddFeature k r m i)
    show ?thesis
      using addFeature_steady[OF w pre, of k r m i] by (simp add: AddFeature)
  qed (use assms(2) in \<open>simp_all add: initialising_def\<close>)
qed

lemma registeredKeys_getReducerManager:
  "objectKeys (featureReducers (fst (getReducerManager s))) = registeredKeys s"
  "processMetaReducers (fst (getReducerManager s)) = managerMetaReducers s"
  by (simp_all add: getReducerManager_def registeredKeys_def managerMetaReducers_def
        createReducerManager_def split: option.splits)

lemma snapshotKeys_currentState: "objectKeys (props (currentState s)) = snapshotKeys s"
  by (simp add: currentState_def snapshotKeys_def split: option.splits)

lemma onAction_result:
  "reductions (onAction a s) =
     reductions s @
       [\<lparr>reducedAction = a, registeredThen = registeredKeys s, previousState = currentState s,
         nextState = managerReducer (fst (getReducerManager s)) (Suc (nextIdent s))
                       (currentState s) a\<rparr>]"
  "appState (onAction a s) =
     Some (managerReducer (fst (getReducerManager s)) (Suc (nextIdent s)) (currentState s) a)"
  by (simp_all add: onAction_def split_beta Let_def currentState_def
        registeredKeys_getReducerManager split: option.splits)

lemma onAction_keys:
  assumes "managerMetaReducers s = []" "distinct (registeredKeys s)"
    and "''__proto__'' \<notin> set (registeredKeys s)"
    and "snapshotKeys s = registeredKeys s \<or> length (snapshotKeys s) \<noteq> length (registeredKeys s)"
  shows "snapshotKeys (onAction a s) = registeredKeys s"
    and "registeredKeys (onAction a s) = registeredKeys s"
    and "managerMetaReducers (onAction a s) = []"
    and "appState (onAction a s) \<noteq> None"
proof -
  let ?rm = "fst (getReducerManager s)"
  let ?rs = "featureReducers ?rm"
  let ?cur = "currentState s"
  have k: "objectKeys ?rs = registeredKeys s"
    by (rule registeredKeys_getReducerManager)
  have d: "distinct (objectKeys ?rs)"
    using assms(2) by (simp add: k)
  have p: "''__proto__'' \<notin> set (objectKeys ?rs)"
    using assms(3) by (simp add: k)
  have m: "processMetaReducers ?rm = []"
    using assms(1) by (simp add: registeredKeys_getReducerManager)
  have next_state: "appState (onAction a s) =
      Some (combineReducers ?rs (Suc (nextIdent s)) (Some ?cur) a)"
    by (simp add: onAction_result managerReducer_def m)
  have cur: "objectKeys (props ?cur) = snapshotKeys s"
    by (rule snapshotKeys_currentState)
  have "objectKeys (props (combineReducers ?rs (Suc (nextIdent s)) (Some ?cur) a)) =
      registeredKeys s"
  proof (cases "length (objectKeys (props ?cur)) = length (objectKeys ?rs) \<and>
      (\<forall>(k, r) \<in> set ?rs. r (getProp (props ?cur) k) a = getProp (props ?cur) k)")
    case True
    then have same: "combineReducers ?rs (Suc (nextIdent s)) (Some ?cur) a = ?cur"
      unfolding combineReducers_result[OF d p] by simp
    have "length (snapshotKeys s) = length (registeredKeys s)"
      using True by (simp only: cur k)
    with assms(4) have "snapshotKeys s = registeredKeys s" by simp
    then show ?thesis by (simp only: same cur)
  next
    case False
    then have new: "combineReducers ?rs (Suc (nextIdent s)) (Some ?cur) a =
        \<lparr>ident = Suc (Suc (nextIdent s)), props = reducedProps ?rs (props ?cur) a\<rparr>"
      by (simp only: combineReducers_result[OF d p] if_False)
    show ?thesis
      by (simp add: new objectKeys_reducedProps k)
  qed
  then show "snapshotKeys (onAction a s) = registeredKeys s"
    by (simp add: snapshotKeys_def[of "onAction a s"] next_state)
  show "registeredKeys (onAction a s) = registeredKeys s"
    by (simp add: registeredKeys_def[of "onAction a s"] registeredKeys_getReducerManager)
  show "managerMetaReducers (onAction a s) = []"
    using assms(1) by (simp add: managerMetaReducers_def[of "onAction a s"] registeredKeys_getReducerManager)
  show "appState (onAction a s) \<noteq> None"
    by (simp add: onAction_result)
qed

lemma view_dispatched_update [simp]:
  "registeredKeys (s\<lparr>dispatched := d\<rparr>) = registeredKeys s"
  "snapshotKeys (s\<lparr>dispatched := d\<rparr>) = snapshotKeys s"
  "managerMetaReducers (s\<lparr>dispatched := d\<rparr>) = managerMetaReducers s"
  "wired (s\<lparr>dispatched := d\<rparr>) = wired s"
  "currentState (s\<lparr>dispatched := d\<rparr>) = currentState s"
  "fst (getReducerManager (s\<lparr>dispatched := d\<rparr>)) = fst (getReducerManager s)"
  by (simp_all add: registeredKeys_def snapshotKeys_def managerMetaReducers_def wired_def
        currentState_def getReducerManager_def split: option.splits)

lemma view_initStore [simp]:
  "registeredKeys (initStore s) = registeredKeys s"
  "snapshotKeys (initStore s) = snapshotKeys s"
  "managerMetaReducers (initStore s) = managerMetaReducers s"
  by (simp_all add: registeredKeys_def snapshotKeys_def managerMetaReducers_def)

lemma view_getReducerManager [simp]:
  "registeredKeys (snd (getReducerManager s)) = registeredKeys s"
  "snapshotKeys (snd (getReducerManager s)) = snapshotKeys s"
  "managerMetaReducers (snd (getReducerManager s)) = managerMetaReducers s"
  "wired (snd (getReducerManager s)) = wired s"
  by (simp_all add: registeredKeys_def snapshotKeys_def managerMetaReducers_def wired_def
        getReducerManager_def createReducerManager_def split: option.splits)

lemma view_set_manager [simp]:
  "registeredKeys (s\<lparr>reducerManager := Some rm\<rparr>) = objectKeys (featureReducers rm)"
  "snapshotKeys (s\<lparr>reducerManager := Some rm\<rparr>) = snapshotKeys s"
  "managerMetaReducers (s\<lparr>reducerManager := Some rm\<rparr>) = processMetaReducers rm"
  "wired (s\<lparr>reducerManager := Some rm\<rparr>) = wired s"
  by (simp_all add: registeredKeys_def snapshotKeys_def managerMetaReducers_def wired_def)

lemma view_updateReducerManager [simp]:
  "registeredKeys (updateReducerManager f s) = objectKeys (featureReducers (f (fst (getReducerManager s))))"
  "snapshotKeys (updateReducerManager f s) = snapshotKeys s"
  "managerMetaReducers (updateReducerManager f s) = processMetaReducers (f (fst (getReducerManager s)))"
  "wired (updateReducerManager f s) = wired s"
  "currentState (updateReducerManager f s) = currentState s"
  "fst (getReducerManager (updateReducerManager f s)) = f (fst (getReducerManager s))"
  by (simp_all add: registeredKeys_def snapshotKeys_def managerMetaReducers_def wired_def
        currentState_def getReducerManager_def[of "updateReducerManager f s"]
        split: option.splits)

lemma onAction_wired [simp]: "wired (onAction a s) = wired s"
  by (simp add: wired_def)

lemma removeFeatureReducer_keys:
  "objectKeys (featureReducers (removeFeatureReducer k rm)) =
     filter (\<lambda>k'. k' \<noteq> k) (objectKeys (featureReducers rm))"
  "processMetaReducers (removeFeatureReducer k rm) = processMetaReducers rm"
  by (simp_all add: removeFeatureReducer_def objectKeys_filter)

lemma filter_out_length:
  "length (filter (\<lambda>k'. k' \<noteq> k) ks) = length ks \<Longrightarrow> filter (\<lambda>k'. k' \<noteq> k) ks = ks"
  by (metis (mono_tags, lifting) filter_True length_filter_less less_irrefl)

lemma onAction_registeredKeys [simp]: "registeredKeys (onAction a s) = registeredKeys s"
  by (simp add: registeredKeys_def[of "onAction a s"] registeredKeys_getReducerManager)

lemma funpow_onAction_registeredKeys [simp]:
  "registeredKeys ((onAction a ^^ n) s) = registeredKeys s"
  by (induction n) simp_all

lemma dispatch_registeredKeys [simp]: "registeredKeys (dispatch a s) = registeredKeys s"
  by (simp add: dispatch_def)

lemma removeFeature_registeredKeys:
  "registeredKeys (removeFeature k s) = filter (\<lambda>k'. k' \<noteq> k) (registeredKeys s)"
  by (simp add: removeFeature_def removeFeatureReducer_keys registeredKeys_getReducerManager)

lemma keyed_dispatch:
  assumes "wired s" "managerMetaReducers s = []" "distinct (registeredKeys s)"
    and "''__proto__'' \<notin> set (registeredKeys s)"
    and "snapshotKeys s = registeredKeys s \<or> length (snapshotKeys s) \<noteq> length (registeredKeys s)"
    and "actionSubscription s"
  shows "keyed (dispatch a s)"
proof -
  have one: "subscriptions s = Suc 0" using assms(1,6) by (simp add: wired_def)
  let ?s = "s\<lparr>dispatched := dispatched s @ [a]\<rparr>"
  have d: "dispatch a s = onAction a ?s" by (rule dispatch_subscribed_once[OF one])
  have pre: "managerMetaReducers ?s = []" "distinct (registeredKeys ?s)"
    "''__proto__'' \<notin> set (registeredKeys ?s)"
    "snapshotKeys ?s = registeredKeys ?s \<or> length (snapshotKeys ?s) \<noteq> length (registeredKeys ?s)"
    using assms by simp_all
  show "keyed (dispatch a s)"
    unfolding d keyed_def using onAction_keys[OF pre, of a] assms(1,3,4,6) by simp
qed

lemma keyed_idle_dispatch:
  assumes "keyed s" "\<not> actionSubscription s"
  shows "keyed (dispatch a s)"
proof -
  have zero: "subscriptions s = 0" using assms by (simp add: keyed_def wired_def)
  show "keyed (dispatch a s)"
    using assms by (simp add: dispatch_unsubscribed[OF zero] keyed_def)
qed

lemma addFeature_fields [simp]:
  "isStoreConfigured (snd (addFeature k r m i s)) = isStoreConfigured s"
  "actionSubscription (snd (addFeature k r m i s))"
  by (simp_all add: addFeature_def split_beta Let_def split: sum.splits)

lemma removeFeature_fields [simp]:
  "isStoreConfigured (removeFeature k s) = isStoreConfigured s"
  "actionSubscription (removeFeature k s) = actionSubscription s"
  by (simp_all add: removeFeature_def)

lemma configureStoreCore_configured [simp]:
  "isStoreConfigured (snd (configureStoreCore cfg s)) = isStoreConfigured s"
  "actionSubscription (snd (configureStoreCore cfg s))"
  by (simp_all add: configureStoreCore_def split_beta Let_def split: option.splits)

lemma configureStoreCore_succeeds:
  "registeredKeys s = [] \<Longrightarrow> fst (configureStoreCore cfg s) = Inr ()"
  using registeredKeys_getReducerManager(1)[of "initStore s"]
  by (simp add: configureStoreCore_def split_beta Let_def hasFeatureReducers_def)

lemma configureStoreCore_guard:
  "registeredKeys s \<noteq> [] \<Longrightarrow>
   configureStoreCore cfg s = (Inl detectedReducers, snd (getReducerManager (initStore s)))"
  using registeredKeys_getReducerManager(1)[of "initStore s"]
  by (auto simp: configureStoreCore_def split_beta Let_def hasFeatureReducers_def
        detectedReducers_def)

lemma view_flag_update [simp]:
  "registeredKeys (s\<lparr>hasUndoExtension := b\<rparr>) = registeredKeys s"
  "snapshotKeys (s\<lparr>hasUndoExtension := b\<rparr>) = snapshotKeys s"
  "managerMetaReducers (s\<lparr>hasUndoExtension := b\<rparr>) = managerMetaReducers s"
  "wired (s\<lparr>hasUndoExtension := b\<rparr>) = wired s"
  "registeredKeys (s\<lparr>isStoreConfigured := b\<rparr>) = registeredKeys s"
  "snapshotKeys (s\<lparr>isStoreConfigured := b\<rparr>) = snapshotKeys s"
  "managerMetaReducers (s\<lparr>isStoreConfigured := b\<rparr>) = managerMetaReducers s"
  "wired (s\<lparr>isStoreConfigured := b\<rparr>) = wired s"
  by (simp_all add: registeredKeys_def snapshotKeys_def managerMetaReducers_def wired_def)

lemma keyed_flag_update [simp]:
  "keyed (s\<lparr>isStoreConfigured := b\<rparr>) = keyed s"
  by (simp add: keyed_def)

lemma plain_extensions:
  "\<forall>e \<in> set es. init e = None \<Longrightarrow>
   registeredKeys (fold addExtension es s) = registeredKeys s \<and>
   snapshotKeys (fold addExtension es s) = snapshotKeys s \<and>
   managerMetaReducers (fold addExtension es s) = managerMetaReducers s \<and>
   wired (fold addExtension es s) = wired s \<and>
   appState (fold addExtension es s) = appState s"
  by (induction es arbitrary: s) (simp_all add: addExtension_def)

lemma configureStoreCore_keyed:
  assumes "keyed s" "plainConfig cfg" "registeredKeys s = []"
  shows "keyed (snd (configureStoreCore cfg s)) \<and>
         registeredKeys (snd (configureStoreCore cfg s)) =
           (case reducers cfg of None \<Rightarrow> [] | Some rs \<Rightarrow> objectKeys rs)"
proof -
  let ?s2 = "snd (getReducerManager (initStore s))"
  let ?rm = "fst (getReducerManager (initStore s))"
  let ?s3 = "case metaReducers cfg of None \<Rightarrow> ?s2
             | Some ms \<Rightarrow> updateReducerManager (addMetaReducers ms) ?s2"
  let ?s4 = "case extensions cfg of None \<Rightarrow> ?s3
             | Some es \<Rightarrow> fold addExtension (sortExtensions es) ?s3"
  let ?s5 = "case reducers cfg of None \<Rightarrow> ?s4
             | Some rs \<Rightarrow> updateReducerManager (setFeatureReducers rs) ?s4"
  let ?ks = "case reducers cfg of None \<Rightarrow> [] | Some rs \<Rightarrow> objectKeys rs"
  have no_features: "\<not> hasFeatureReducers ?rm"
    using assms(3) registeredKeys_getReducerManager(1)[of "initStore s"]
    by (simp add: hasFeatureReducers_def)
  have s2: "wired ?s2" "actionSubscription ?s2" "managerMetaReducers ?s2 = []"
    "registeredKeys ?s2 = []" "snapshotKeys ?s2 = []"
    using assms(1,3) initStore_wired[of s] by (simp_all add: keyed_def)
  have s3: "wired ?s3" "actionSubscription ?s3" "managerMetaReducers ?s3 = []"
    "registeredKeys ?s3 = []" "snapshotKeys ?s3 = []"
    using s2 assms(2) registeredKeys_getReducerManager[of ?s2]
    by (auto simp: plainConfig_def addMetaReducers_def split: option.splits list.splits)
  have ext: "registeredKeys ?s4 = registeredKeys ?s3 \<and> snapshotKeys ?s4 = snapshotKeys ?s3 \<and>
      managerMetaReducers ?s4 = managerMetaReducers ?s3 \<and> wired ?s4 = wired ?s3 \<and>
      actionSubscription ?s4 = actionSubscription ?s3"
  proof (cases "extensions cfg")
    case None
    then show ?thesis by simp
  next
    case (Some es)
    have "\<forall>e \<in> set (sortExtensions es). init e = None"
      using assms(2) Some
      by (auto simp: plainConfig_def sortExtensions_def list_all_iff split: option.splits)
    from plain_extensions[OF this, of ?s3] show ?thesis
      using Some by simp
  qed
  have s4: "wired ?s4" "actionSubscription ?s4" "managerMetaReducers ?s4 = []"
    "registeredKeys ?s4 = []" "snapshotKeys ?s4 = []"
    using ext s3 by simp_all
  have s5: "wired ?s5" "actionSubscription ?s5" "managerMetaReducers ?s5 = []"
    "registeredKeys ?s5 = ?ks" "snapshotKeys ?s5 = []" "distinct (registeredKeys ?s5)"
    "''__proto__'' \<notin> set (registeredKeys ?s5)"
    using s4 assms(2) registeredKeys_getReducerManager[of ?s4]
    by (auto simp: plainConfig_def setFeatureReducers_def split: option.splits)
  have init_none: "initialState cfg = None"
    using assms(2) by (simp add: plainConfig_def split: option.splits)
  have core: "snd (configureStoreCore cfg s) = dispatch (miniRxAction INIT None) ?s5"
    using no_features init_none by (simp add: configureStoreCore_def split_beta Let_def)
  have "snapshotKeys ?s5 = registeredKeys ?s5 \<or> length (snapshotKeys ?s5) \<noteq> length (registeredKeys ?s5)"
    unfolding s5(4,5) by (cases ?ks) simp_all
  from keyed_dispatch[OF s5(1) s5(3) s5(6) s5(7) this s5(2), of "miniRxAction INIT None"]
  show ?thesis
    unfolding core using s5(4) by simp
qed

lemma configureStore_keyed:
  assumes "keyed s" "plainConfig cfg"
  shows "keyed (snd (configureStore cfg s)) \<and>
         isStoreConfigured (snd (configureStore cfg s)) =
           fst (trackSlices (ConfigureStore cfg) (isStoreConfigured s, registeredKeys s)) \<and>
         registeredKeys (snd (configureStore cfg s)) =
           snd (trackSlices (ConfigureStore cfg) (isStoreConfigured s, registeredKeys s))"
proof (cases "isStoreConfigured s")
  case True
  then show ?thesis using assms(1) by (simp add: configureStore_def)
next
  case False
  show ?thesis
  proof (cases "registeredKeys s = []")
    case True
    have ok: "fst (configureStoreCore cfg s) = Inr ()"
      by (rule configureStoreCore_succeeds[OF True])
    then obtain s1 where core: "configureStoreCore cfg s = (Inr (), s1)"
      by (cases "configureStoreCore cfg s") auto
    from configureStoreCore_keyed[OF assms True] core
    show ?thesis
      using False True by (simp add: configureStore_def)
  next
    case nonempty: False
    let ?s2 = "snd (getReducerManager (initStore s))"
    have "keyed ?s2"
      using assms(1) initStore_wired[of s] nonempty by (auto simp: keyed_def)
    then show ?thesis
      using False nonempty by (simp add: configureStore_def configureStoreCore_guard)
  qed
qed

lemma initialStore_keyed: "keyed initialStore"
  by (simp add: keyed_def wired_def registeredKeys_def snapshotKeys_def managerMetaReducers_def initialStore_def)

lemma perform_keyed:
  assumes "keyed s" "sliceCall c"
  shows "keyed (perform c s) \<and>
         isStoreConfigured (perform c s) =
           fst (trackSlices c (isStoreConfigured s, registeredKeys s)) \<and>
         set (registeredKeys (perform c s)) =
           set (snd (trackSlices c (isStoreConfigured s, registeredKeys s)))"
proof (cases c)
  case (ConfigureStore cfg)
  with assms(2) have "plainConfig cfg" by (simp add: sliceCall_def)
  from configureStore_keyed[OF assms(1) this] show ?thesis
    by (simp add: ConfigureStore)
next
  case (ConfigureStoreCore cfg)
  with assms(2) have plain: "plainConfig cfg" by (simp add: sliceCall_def)
  show ?thesis
  proof (cases "registeredKeys s = []")
    case True
    from configureStoreCore_keyed[OF assms(1) plain True] show ?thesis
      using True by (simp add: ConfigureStoreCore)
  next
    case False
    have "keyed (snd (getReducerManager (initStore s)))"
      using assms(1) initStore_wired[of s] False by (auto simp: keyed_def)
    then show ?thesis
      using False by (simp add: ConfigureStoreCore configureStoreCore_guard)
  qed
next
  case (Dispatch a)
  show ?thesis
  proof (cases "actionSubscription s")
    case True
    then show ?thesis
      using keyed_dispatch[of s a] assms(1) by (simp add: Dispatch keyed_def)
  next
    case False
    then show ?thesis
      using keyed_idle_dispatch[OF assms(1), of a] by (simp add: Dispatch)
  qed
next
  case (RemoveFeature k)
  let ?s1 = "updateReducerManager (removeFeatureReducer k) s"
  have regs: "registeredKeys ?s1 = filter (\<lambda>k'. k' \<noteq> k) (registeredKeys s)"
    by (simp add: removeFeatureReducer_keys registeredKeys_getReducerManager)
  have metas: "managerMetaReducers ?s1 = []"
    using assms(1) by (simp add: removeFeatureReducer_keys registeredKeys_getReducerManager keyed_def)
  show ?thesis
  proof (cases "actionSubscription s")
    case True
    have "snapshotKeys ?s1 = registeredKeys ?s1 \<or> length (snapshotKeys ?s1) \<noteq> length (registeredKeys ?s1)"
      using assms(1) filter_out_length[of k "registeredKeys s"] unfolding regs
      by (auto simp: keyed_def)
    moreover have "wired ?s1" "distinct (registeredKeys ?s1)" "actionSubscription ?s1"
      "''__proto__'' \<notin> set (registeredKeys ?s1)"
      using assms(1) True unfolding regs by (simp_all add: keyed_def)
    ultimately show ?thesis
      using keyed_dispatch[of ?s1 "miniRxAction DESTROY (Some k)"] metas regs
      by (simp add: RemoveFeature removeFeature_def)
  next
    case False
    have "keyed ?s1"
      using assms(1) False metas regs by (simp add: keyed_def)
    then show ?thesis
      using keyed_idle_dispatch[of ?s1 "miniRxAction DESTROY (Some k)"] False regs
      by (simp add: RemoveFeature removeFeature_def)
  qed
next
  case (AddFeature k r m i)
  let ?s2 = "snd (getReducerManager (initStore s))"
  let ?rm = "fst (getReducerManager (initStore s))"
  have w: "wired ?s2" "actionSubscription ?s2"
    using assms(1) initStore_wired[of s] by (simp_all add: keyed_def)
  have rk: "objectKeys (featureReducers ?rm) = registeredKeys s"
    "processMetaReducers ?rm = []"
    using assms(1) registeredKeys_getReducerManager[of "initStore s"] by (simp_all add: keyed_def)
  have key: "k \<noteq> ''__proto__''"
    using assms(2) by (simp add: AddFeature sliceCall_def)
  show ?thesis
  proof (cases "k \<in> set (registeredKeys s)")
    case True
    then have "snapshotKeys s \<noteq> []" using assms(1) by (auto simp: keyed_def)
    then have "appState s \<noteq> None" by (cases "appState s") (auto simp: snapshotKeys_def)
    then have "actionSubscription s" using assms(1) by (auto simp: keyed_def)
    then show ?thesis
      using True assms(1) rk w
      by (simp add: AddFeature addFeature_def split_beta Let_def addFeatureReducer_def keyed_def)
  next
    case False
    let ?rs' = "defineProp (featureReducers ?rm) k (sliceReducer r m i)"
    let ?rm' = "?rm\<lparr>featureReducers := ?rs'\<rparr>"
    let ?s3 = "?s2\<lparr>reducerManager := Some ?rm'\<rparr>"
    have nk: "k \<notin> set (objectKeys (featureReducers ?rm))"
      using False by (simp add: rk(1))
    have keys': "set (objectKeys ?rs') = insert k (set (registeredKeys s))"
      "length (objectKeys ?rs') = Suc (length (registeredKeys s))"
      "distinct (objectKeys ?rs') = distinct (registeredKeys s)"
      using objectKeys_defineProp_new[OF nk, of "sliceReducer r m i"] by (simp_all only: rk(1))
    have regs3: "registeredKeys ?s3 = objectKeys ?rs'" "snapshotKeys ?s3 = registeredKeys s"
      "managerMetaReducers ?s3 = []"
      using assms(1) rk(2) by (simp_all add: keyed_def)
    have pre: "wired ?s3" "managerMetaReducers ?s3 = []" "distinct (registeredKeys ?s3)"
      "''__proto__'' \<notin> set (registeredKeys ?s3)"
      "snapshotKeys ?s3 = registeredKeys ?s3 \<or> length (snapshotKeys ?s3) \<noteq> length (registeredKeys ?s3)"
      "actionSubscription ?s3"
      unfolding regs3 keys' using w key assms(1) by (simp_all add: keyed_def)
    have add: "perform c s = dispatch (miniRxAction INIT (Some k)) ?s3"
      using nk by (simp add: AddFeature addFeature_def split_beta Let_def addFeatureReducer_def)
    show ?thesis
      unfolding add
      using keyed_dispatch[OF pre, of "miniRxAction INIT (Some k)"] False
      by (simp add: AddFeature regs3(1) keys'(1))
  qed
qed

lemma trackSlices_set:
  assumes "set ks = set ks'"
  shows "fst (trackSlices c (b, ks)) = fst (trackSlices c (b, ks'))"
    and "set (snd (trackSlices c (b, ks))) = set (snd (trackSlices c (b, ks')))"
proof -
  have e: "(ks = []) = (ks' = [])" using assms by (metis set_empty)
  show "fst (trackSlices c (b, ks)) = fst (trackSlices c (b, ks'))"
    using assms e by (cases c) auto
  show "set (snd (trackSlices c (b, ks))) = set (snd (trackSlices c (b, ks')))"
    using assms e by (cases c) auto
qed

lemma run_keyed:
  "keyed s \<Longrightarrow> list_all sliceCall calls \<Longrightarrow> set ks = set (registeredKeys s) \<Longrightarrow>
   keyed (run calls s) \<and>
   isStoreConfigured (run calls s) = fst (fold trackSlices calls (isStoreConfigured s, ks)) \<and>
   set (registeredKeys (run calls s)) = set (snd (fold trackSlices calls (isStoreConfigured s, ks)))"
proof (induction calls arbitrary: s ks)
  case Nil
  then show ?case by (simp add: run_def)
next
  case (Cons c calls)
  obtain b' ks' where t: "trackSlices c (isStoreConfigured s, ks) = (b', ks')"
    by (cases "trackSlices c (isStoreConfigured s, ks)")
  have step: "keyed (perform c s)" "isStoreConfigured (perform c s) = b'"
    "set ks' = set (registeredKeys (perform c s))"
    using perform_keyed[of s c] Cons.prems(1,2)
      trackSlices_set[OF Cons.prems(3), of c "isStoreConfigured s"] t
    by simp_all
  have rest: "list_all sliceCall calls" using Cons.prems(2) by simp
  show ?case
    using Cons.IH[OF step(1) rest step(3)] t step(2) by (simp add: run_def)
qed

lemma run_keyed_initial:
  assumes "list_all sliceCall calls"
  shows "keyed (run calls initialStore)"
    and "set (registeredKeys (run calls initialStore)) = set (currentSlices calls)"
proof -
  have start: "isStoreConfigured initialStore = False" "set [] = set (registeredKeys initialStore)"
    by (simp_all add: registeredKeys_def initialStore_def)
  from run_keyed[OF initialStore_keyed assms start(2)] show "keyed (run calls initialStore)"
    by simp
  from run_keyed[OF initialStore_keyed assms start(2)]
  show "set (registeredKeys (run calls initialStore)) = set (currentSlices calls)"
    unfolding currentSlices_def start(1) by simp
qed

lemma perform_started: "started s \<Longrightarrow> started (perform c s)"
proof (cases c)
  case (ConfigureStore cfg)
  assume st: "started s"
  obtain r s1 where core: "configureStoreCore cfg s = (r, s1)"
    by (cases "configureStoreCore cfg s")
  have sub: "actionSubscription s1"
    using configureStoreCore_configured(2)[of cfg s] by (simp add: core)
  have "actionSubscription (perform c s) \<or> perform c s = s"
    using sub by (cases r) (simp_all add: ConfigureStore configureStore_def core)
  then show ?thesis
    using st perform_wired[of s c] by (auto simp: started_def)
next
  case (ConfigureStoreCore cfg)
  assume "started s"
  then show ?thesis
    using perform_wired[of s c] by (simp add: ConfigureStoreCore started_def)
next
  case (AddFeature k r m i)
  assume "started s"
  then show ?thesis
    using perform_wired[of s c] by (simp add: AddFeature started_def)
next
  case (RemoveFeature k)
  assume "started s"
  then show ?thesis
    using perform_wired[of s c]
    by (simp add: RemoveFeature started_def removeFeature_registeredKeys)
next
  case (Dispatch a)
  assume "started s"
  then show ?thesis
    using perform_wired[of s c] by (simp add: Dispatch started_def)
qed

lemma run_started: "started (run calls initialStore)"
proof -
  have start: "started initialStore"
    by (simp add: started_def wired_def registeredKeys_def initialStore_def)
  have "started s \<Longrightarrow> started (run calls s)" for s
    unfolding run_def by (induction calls arbitrary: s) (simp_all add: perform_started)
  from this[OF start] show ?thesis .
qed

lemma configureStore_again:
  "isStoreConfigured s \<Longrightarrow>
   configureStore cfg s = (Inl calledMultipleTimes, s)"
  by (simp add: configureStore_def)

lemma perform_configured: "isStoreConfigured s \<Longrightarrow> isStoreConfigured (perform c s)"
  by (cases c) (simp_all add: configureStore_again)

lemma run_configured: "isStoreConfigured s \<Longrightarrow> isStoreConfigured (run calls s)"
  unfolding run_def by (induction calls arbitrary: s) (simp_all add: perform_configured)

lemma run_any_wired: "wired (run calls initialStore)"
  by (rule run_wired[OF initialStore_wired])

section \<open>Snapshot keys and registered slices\<close>

text \<open>
  C3, as the claim states it, fails: \<open>configureStore\<close> with the reducers \<open>{a}\<close> and
  the initial state \<open>{x: Ref 1}\<close> registers the slice \<open>a\<close> and reduces its
  initialisation action on the initial state; the reducer of \<open>a\<close> returns the
  \<open>undefined\<close> it is given, the number of keys is the same, and the combined reducer
  returns the initial state. The snapshot has the key \<open>x\<close>, which is no slice, and not
  the key \<open>a\<close>, which is registered.
\<close>

theorem snapshot_keys_initial_state_counterexample:
  "snapshotKeys (run
     [ConfigureStore \<lparr>reducers = Some [(''a'', identityReducer)], metaReducers = None,
        extensions = None, initialState = Some \<lparr>ident = 0, props = [(''x'', Ref 1)]\<rparr>\<rparr>]
     initialStore) = [''x''] \<and>
   registeredKeys (run
     [ConfigureStore \<lparr>reducers = Some [(''a'', identityReducer)], metaReducers = None,
        extensions = None, initialState = Some \<lparr>ident = 0, props = [(''x'', Ref 1)]\<rparr>\<rparr>]
     initialStore) = [''a'']"
  by (simp add: run_def configureStore_def configureStoreCore_def initStore_def initialStore_def
        getReducerManager_def createReducerManager_def hasFeatureReducers_def
        updateReducerManager_def setFeatureReducers_def dispatch_def onAction_def
        managerReducer_def combineReducers_def Let_def snapshotKeys_def registeredKeys_def
        objectKeys_eval getProp_def objectPrototypeMembers_def identityReducer_def)

text \<open>
  C3, amended: over every sequence of calls made one after the other from the start of
  the process, none from inside the processing of an action (dispatches, registrations
  of slices under keys other than \<open>__proto__\<close>, teardowns, and \<open>configureStore\<close>
  when it installs no meta-reducer, sets no initial state and has no reducer under the
  key \<open>__proto__\<close>), the keys of the snapshot are the registered slice keys, each
  once and in the order of \<open>Object.keys\<close>, and their set is the set of the slices that
  the calls registered and did not tear down since.
\<close>

theorem snapshot_keys_are_registered_slices:
  assumes "list_all sliceCall calls"
  shows "snapshotKeys (run calls initialStore) = registeredKeys (run calls initialStore) \<and>
         set (registeredKeys (run calls initialStore)) = set (currentSlices calls) \<and>
         distinct (snapshotKeys (run calls initialStore))"
proof -
  have k: "keyed (run calls initialStore)"
    and r: "set (registeredKeys (run calls initialStore)) = set (currentSlices calls)"
    using run_keyed_initial[OF assms] by simp_all
  from k have "snapshotKeys (run calls initialStore) = registeredKeys (run calls initialStore)"
    and "distinct (registeredKeys (run calls initialStore))"
    by (simp_all add: keyed_def)
  with r show ?thesis by simp
qed

theorem snapshot_keys_are_registered_slices_witness:
  "list_all sliceCall
     [ConfigureStore emptyConfig,
      AddFeature ''a'' identityReducer None None,
      AddFeature ''10'' identityReducer None (Some (Ref 1)),
      AddFeature ''2'' identityReducer None None,
      Dispatch \<lparr>type = ''x'', payload = Undefined\<rparr>,
      RemoveFeature ''a''] \<and>
   set (snapshotKeys (run
     [ConfigureStore emptyConfig,
      AddFeature ''a'' identityReducer None None,
      AddFeature ''10'' identityReducer None (Some (Ref 1)),
      AddFeature ''2'' identityReducer None None,
      Dispatch \<lparr>type = ''x'', payload = Undefined\<rparr>,
      RemoveFeature ''a''] initialStore)) = {''10'', ''2''}"
  using snapshot_keys_are_registered_slices
    [of "[ConfigureStore emptyConfig,
      AddFeature ''a'' identityReducer None None,
      AddFeature ''10'' identityReducer None (Some (Ref 1)),
      AddFeature ''2'' identityReducer None None,
      Dispatch \<lparr>type = ''x'', payload = Undefined\<rparr>,
      RemoveFeature ''a'']"]
  by (simp add: sliceCall_def plainConfig_def emptyConfig_def currentSlices_def)

section \<open>The undo capability flag\<close>

text \<open>
  \<open>addExtension\<close> of \<open>signal-store/store-core.ts\<close> only ever sets the flag: once an
  extension of the undo kind is installed, the flag stays.
\<close>

lemma signalAddExtension_keeps_flag:
  "hasUndoExtension s \<Longrightarrow> hasUndoExtension (signalAddExtension e s)"
  by (simp add: signalAddExtension_def Let_def split: option.splits)

lemma fold_signalAddExtension_keeps_flag:
  "hasUndoExtension s \<Longrightarrow> hasUndoExtension (fold signalAddExtension es s)"
  by (induction es arbitrary: s) (simp_all add: signalAddExtension_keeps_flag)

lemma signalAddExtension_sets_flag:
  "extensionId e = UNDO \<Longrightarrow> hasUndoExtension (signalAddExtension e s)"
  by (simp add: signalAddExtension_def Let_def split: option.splits)

lemma signalAddExtension_undo_flag:
  "\<exists>e \<in> set es. extensionId e = UNDO \<Longrightarrow> hasUndoExtension (fold signalAddExtension es s)"
proof (induction es arbitrary: s)
  case Nil
  then show ?case by simp
next
  case (Cons e es)
  show ?case
  proof (cases "extensionId e = UNDO")
    case True
    then show ?thesis
      by (simp add: fold_signalAddExtension_keeps_flag signalAddExtension_sets_flag)
  next
    case False
    with Cons.prems have "\<exists>e \<in> set es. extensionId e = UNDO" by simp
    then show ?thesis using Cons.IH by simp
  qed
qed

text \<open>
  C4 fails for \<open>addExtension\<close> of \<open>mini-rx-store/store-core.ts\<close>, which assigns the
  flag at every installation: installing the undo extension and then the logger leaves
  the flag false, also through \<open>configureStore\<close> when the undo extension sorts
  first.
\<close>

theorem addExtension_overwrites_undo_flag:
  "\<not> hasUndoExtension
       (fold addExtension
          [\<lparr>extensionId = UNDO, sortOrder = 0, init = None\<rparr>,
           \<lparr>extensionId = LOGGER, sortOrder = 1, init = None\<rparr>] initialStore) \<and>
   \<not> hasUndoExtension
       (snd (configureStoreCore
          (emptyConfig\<lparr>extensions :=
             Some [\<lparr>extensionId = LOGGER, sortOrder = 1, init = None\<rparr>,
                   \<lparr>extensionId = UNDO, sortOrder = 0, init = None\<rparr>]\<rparr>) initialStore))"
  by (simp add: addExtension_def initialStore_def configureStoreCore_def emptyConfig_def
        sortExtensions_def initStore_def getReducerManager_def createReducerManager_def
        hasFeatureReducers_def Let_def dispatch_def onAction_def)

section \<open>Tearing a slice down\<close>

text \<open>
  C5, as the claim states it, fails: when the slice-destroyed action of \<open>a\<close> is reduced,
  the reducer of \<open>a\<close> is no longer registered. \<open>removeFeature\<close> removes the reducer
  before it dispatches.
\<close>

theorem removeFeature_dispatch_first_counterexample:
  "reducedAction (last (reductions (removeFeature ''a''
      (snd (addFeature ''a'' identityReducer None None initialStore))))) =
     miniRxAction DESTROY (Some ''a'') \<and>
   ''a'' \<notin> set (registeredThen (last (reductions (removeFeature ''a''
      (snd (addFeature ''a'' identityReducer None None initialStore))))))"
  by (simp add: addFeature_def initStore_def initialStore_def
        getReducerManager_def createReducerManager_def addFeatureReducer_def
        dispatch_def onAction_def Let_def
        removeFeature_def updateReducerManager_def removeFeatureReducer_def)

text \<open>
  C5, amended: in every store reached by calls made one after the other from the start
  of the process (none from inside the processing of an action, and no teardown of the
  store), unregistering a registered slice \<open>k\<close> by such a call first removes the reducer of \<open>k\<close> from the
  reducer manager and then dispatches the slice-destroyed action. That action is reduced
  exactly once: the reducer of the manager without the reducer of \<open>k\<close>, the
  meta-reducers included, is applied to the snapshot as it was before the call (whether
  or not it holds an entry for \<open>k\<close>) and to the action, and its result is the new
  snapshot. \<open>k\<close> is no longer registered afterwards. When no meta-reducer is installed
  and the snapshot had as many keys as there were registered slices, the new snapshot
  has no key \<open>k\<close>.
\<close>

theorem removeFeature_removes_reducer_first:
  assumes "k \<in> set (registeredKeys (run calls initialStore))"
  shows "dispatched (removeFeature k (run calls initialStore)) =
           dispatched (run calls initialStore) @ [miniRxAction DESTROY (Some k)] \<and>
         reductions (removeFeature k (run calls initialStore)) =
           reductions (run calls initialStore) @
             [\<lparr>reducedAction = miniRxAction DESTROY (Some k),
               registeredThen = filter (\<lambda>k'. k' \<noteq> k) (registeredKeys (run calls initialStore)),
               previousState = currentState (run calls initialStore),
               nextState =
                 managerReducer
                   (removeFeatureReducer k (fst (getReducerManager (run calls initialStore))))
                   (Suc (nextIdent (run calls initialStore)))
                   (currentState (run calls initialStore))
                   (miniRxAction DESTROY (Some k))\<rparr>] \<and>
         appState (removeFeature k (run calls initialStore)) =
           Some (managerReducer
                   (removeFeatureReducer k (fst (getReducerManager (run calls initialStore))))
                   (Suc (nextIdent (run calls initialStore)))
                   (currentState (run calls initialStore))
                   (miniRxAction DESTROY (Some k))) \<and>
         registeredKeys (removeFeature k (run calls initialStore)) =
           filter (\<lambda>k'. k' \<noteq> k) (registeredKeys (run calls initialStore)) \<and>
         (managerMetaReducers (run calls initialStore) = [] \<and>
          length (snapshotKeys (run calls initialStore)) =
            length (registeredKeys (run calls initialStore)) \<longrightarrow>
            k \<notin> set (snapshotKeys (removeFeature k (run calls initialStore))))"
proof -
  let ?s = "run calls initialStore"
  let ?a = "miniRxAction DESTROY (Some k)"
  let ?rm = "fst (getReducerManager ?s)"
  let ?rm' = "removeFeatureReducer k ?rm"
  let ?s1 = "updateReducerManager (removeFeatureReducer k) ?s"
  let ?s2 = "?s1\<lparr>dispatched := dispatched ?s1 @ [?a]\<rparr>"
  let ?next = "managerReducer ?rm' (Suc (nextIdent ?s)) (currentState ?s) ?a"
  have st: "started ?s" by (rule run_started)
  have sub: "actionSubscription ?s" using st assms by (auto simp: started_def)
  then have one: "subscriptions ?s1 = Suc 0" using st by (simp add: started_def wired_def)
  have rem: "removeFeature k ?s = onAction ?a ?s2"
    by (simp add: removeFeature_def dispatch_subscribed_once[OF one])
  have regs: "objectKeys (featureReducers ?rm') = filter (\<lambda>k'. k' \<noteq> k) (registeredKeys ?s)"
    by (simp add: removeFeatureReducer_keys registeredKeys_getReducerManager)
  have main: "dispatched (removeFeature k ?s) = dispatched ?s @ [?a]"
    "reductions (removeFeature k ?s) =
       reductions ?s @
         [\<lparr>reducedAction = ?a,
           registeredThen = filter (\<lambda>k'. k' \<noteq> k) (registeredKeys ?s),
           previousState = currentState ?s, nextState = ?next\<rparr>]"
    "appState (removeFeature k ?s) = Some ?next"
    "registeredKeys (removeFeature k ?s) = filter (\<lambda>k'. k' \<noteq> k) (registeredKeys ?s)"
    by (simp_all add: rem onAction_result regs)
  have gone: "k \<notin> set (snapshotKeys (removeFeature k ?s))"
    if metas: "managerMetaReducers ?s = []"
      and len: "length (snapshotKeys ?s) = length (registeredKeys ?s)"
  proof -
    have m: "processMetaReducers ?rm' = []"
      using metas by (simp add: removeFeatureReducer_keys registeredKeys_getReducerManager)
    have next_state: "?next =
        combineReducers (featureReducers ?rm') (Suc (nextIdent ?s)) (Some (currentState ?s)) ?a"
      by (simp add: managerReducer_def m)
    have "length (filter (\<lambda>k'. k' \<noteq> k) (registeredKeys ?s)) < length (registeredKeys ?s)"
      using assms by (simp add: length_filter_less)
    then have "length (objectKeys (props (currentState ?s))) \<noteq>
        length (objectKeys (featureReducers ?rm'))"
      unfolding regs snapshotKeys_currentState len by simp
    from combineReducers_count_differs[OF this, of "Suc (nextIdent ?s)" ?a]
    have "set (objectKeys (props ?next)) \<subseteq> set (filter (\<lambda>k'. k' \<noteq> k) (registeredKeys ?s))"
      unfolding next_state regs .
    then have "k \<notin> set (objectKeys (props ?next))" by auto
    then show ?thesis
      by (simp add: snapshotKeys_def[of "removeFeature k ?s"] main(3))
  qed
  show ?thesis
    using main gone by simp
qed

theorem removeFeature_removes_reducer_first_witness:
  "''a'' \<in> set (registeredKeys (run [AddFeature ''a'' identityReducer None None] initialStore)) \<and>
   managerMetaReducers (run [AddFeature ''a'' identityReducer None None] initialStore) = [] \<and>
   length (snapshotKeys (run [AddFeature ''a'' identityReducer None None] initialStore)) =
     length (registeredKeys (run [AddFeature ''a'' identityReducer None None] initialStore)) \<and>
   registeredThen (last (reductions (removeFeature ''a''
      (run [AddFeature ''a'' identityReducer None None] initialStore)))) = [] \<and>
   previousState (last (reductions (removeFeature ''a''
      (run [AddFeature ''a'' identityReducer None None] initialStore)))) =
     \<lparr>ident = 2, props = [(''a'', Undefined)]\<rparr> \<and>
   registeredKeys (removeFeature ''a''
      (run [AddFeature ''a'' identityReducer None None] initialStore)) = [] \<and>
   ''a'' \<notin> set (snapshotKeys (removeFeature ''a''
      (run [AddFeature ''a'' identityReducer None None] initialStore)))"
proof -
  let ?s = "run [AddFeature ''a'' identityReducer None None] initialStore"
  have state: "registeredKeys ?s = [''a'']" "managerMetaReducers ?s = []"
    "snapshotKeys ?s = [''a'']" "currentState ?s = \<lparr>ident = 2, props = [(''a'', Undefined)]\<rparr>"
    by (simp_all add: run_def addFeature_def initStore_def initialStore_def
          getReducerManager_def createReducerManager_def addFeatureReducer_def
          dispatch_def onAction_def managerReducer_def combineReducers_def Let_def
          registeredKeys_def managerMetaReducers_def snapshotKeys_def currentState_def
          sliceReducer_def objectKeys_eval getProp_def setProp_def objectPrototypeMembers_def
          identityReducer_def)
  have a: "''a'' \<in> set (registeredKeys ?s)" by (simp add: state)
  show ?thesis
    using removeFeature_removes_reducer_first[OF a] by (simp add: state)
qed

section \<open>Registration and configureStore\<close>

text \<open>
  C6, as the claim states it, fails: after a feature was registered on a fresh store,
  \<open>configureStore\<close> of \<open>store-core.ts\<close> throws.
\<close>

theorem configureStore_after_registration_counterexample:
  "fst (configureStoreCore emptyConfig
          (snd (addFeature ''users'' identityReducer None None initialStore))) =
   Inl detectedReducers"
  by (simp add: configureStoreCore_def addFeature_def initStore_def initialStore_def
        getReducerManager_def createReducerManager_def addFeatureReducer_def
        hasFeatureReducers_def dispatch_def onAction_def Let_def detectedReducers_def)

text \<open>
  C6, amended: a feature can be registered in every state of the store, before and after
  \<open>configureStore\<close>, when its key is not registered yet: \<open>addFeature\<close> initialises
  the store, registers the key and its slice-initialized action is reduced once. While a
  feature is registered, \<open>configureStore\<close> of \<open>store-core.ts\<close> throws.
\<close>

theorem registration_before_configureStore:
  assumes "k \<notin> set (registeredKeys (run calls initialStore))"
  shows "fst (addFeature k r m i (run calls initialStore)) = Inr () \<and>
         actionSubscription (snd (addFeature k r m i (run calls initialStore))) \<and>
         k \<in> set (registeredKeys (snd (addFeature k r m i (run calls initialStore)))) \<and>
         map reducedAction (reductions (snd (addFeature k r m i (run calls initialStore)))) =
           map reducedAction (reductions (run calls initialStore)) @ [miniRxAction INIT (Some k)] \<and>
         (\<forall>cfg. fst (configureStoreCore cfg (snd (addFeature k r m i (run calls initialStore)))) =
                  Inl detectedReducers)"
proof -
  let ?s = "run calls initialStore"
  let ?s2 = "snd (getReducerManager (initStore ?s))"
  let ?rm = "fst (getReducerManager (initStore ?s))"
  let ?rm' = "?rm\<lparr>featureReducers := defineProp (featureReducers ?rm) k (sliceReducer r m i)\<rparr>"
  let ?s3 = "?s2\<lparr>reducerManager := Some ?rm'\<rparr>"
  have rk: "objectKeys (featureReducers ?rm) = registeredKeys ?s"
    using registeredKeys_getReducerManager(1)[of "initStore ?s"] by simp
  have add: "addFeature k r m i ?s = (Inr (), dispatch (miniRxAction INIT (Some k)) ?s3)"
    using assms rk by (simp add: addFeature_def split_beta Let_def addFeatureReducer_def)
  have nk: "k \<notin> set (objectKeys (featureReducers ?rm))"
    using assms rk by simp
  have keys': "set (objectKeys (defineProp (featureReducers ?rm) k (sliceReducer r m i))) =
      insert k (set (registeredKeys ?s))"
    using objectKeys_defineProp_new(1)[OF nk, of "sliceReducer r m i"] by (simp only: rk)
  have one: "subscriptions ?s3 = Suc 0"
    using initStore_subscribed[OF run_any_wired, of calls] by simp
  have regs: "set (registeredKeys (snd (addFeature k r m i ?s))) = insert k (set (registeredKeys ?s))"
    by (simp add: add keys')
  have "registeredKeys (snd (addFeature k r m i ?s)) \<noteq> []"
    using regs by auto
  then have guard: "\<And>cfg. fst (configureStoreCore cfg (snd (addFeature k r m i ?s))) = Inl detectedReducers"
    by (simp add: configureStoreCore_guard)
  show ?thesis
    using guard regs dispatch_reduced_once[OF one, of "miniRxAction INIT (Some k)"]
    by (simp add: add)
qed

theorem registration_before_configureStore_witness:
  "''users'' \<notin> set (registeredKeys (run [] initialStore)) \<and>
   fst (addFeature ''users'' identityReducer None None (run [] initialStore)) = Inr () \<and>
   ''users'' \<in> set (registeredKeys
      (snd (addFeature ''users'' identityReducer None None (run [] initialStore)))) \<and>
   fst (configureStoreCore emptyConfig
      (snd (addFeature ''users'' identityReducer None None (run [] initialStore)))) =
     Inl detectedReducers"
proof -
  have a: "''users'' \<notin> set (registeredKeys (run [] initialStore))"
    by (simp add: run_def registeredKeys_def initialStore_def)
  show ?thesis
    using a registration_before_configureStore[OF a, of identityReducer None None] by simp
qed

text \<open>
  C7, as the claim states it, fails: the first call of \<open>configureStore\<close> throws when a
  feature was registered before it, and it leaves the store unconfigured, so that a later
  call, after the feature is torn down, succeeds.
\<close>

theorem first_configureStore_counterexample:
  "fst (configureStore emptyConfig
          (snd (addFeature ''users'' identityReducer None None initialStore))) =
     Inl detectedReducers \<and>
   fst (configureStore emptyConfig (removeFeature ''users''
          (snd (configureStore emptyConfig
             (snd (addFeature ''users'' identityReducer None None initialStore)))))) =
     Inr StoreHandle"
  by (simp add: configureStore_def configureStoreCore_def addFeature_def initStore_def initialStore_def
        getReducerManager_def createReducerManager_def addFeatureReducer_def
        hasFeatureReducers_def dispatch_def onAction_def Let_def detectedReducers_def
        removeFeature_def updateReducerManager_def removeFeatureReducer_def emptyConfig_def)

text \<open>
  C7, amended: a call of \<open>configureStore\<close> on a store that is not configured and has no
  feature reducer succeeds and returns the store handle; after it, whatever calls follow,
  every call of \<open>configureStore\<close> throws and leaves the store as it was.
\<close>

theorem configureStore_at_most_once:
  assumes "\<not> isStoreConfigured s" and "registeredKeys s = []"
  shows "fst (configureStore cfg s) = Inr StoreHandle \<and>
         isStoreConfigured (snd (configureStore cfg s)) \<and>
         (\<forall>calls cfg'.
            configureStore cfg' (run calls (snd (configureStore cfg s))) =
              (Inl calledMultipleTimes,
               run calls (snd (configureStore cfg s))))"
proof -
  obtain u s1 where core: "configureStoreCore cfg s = (Inr u, s1)"
    using configureStoreCore_succeeds[OF assms(2), of cfg]
    by (cases "configureStoreCore cfg s") auto
  have configured: "configureStore cfg s = (Inr StoreHandle, s1\<lparr>isStoreConfigured := True\<rparr>)"
    using assms(1) core by (simp add: configureStore_def)
  have "isStoreConfigured (snd (configureStore cfg s))"
    by (simp add: configured)
  then show ?thesis
    using configured run_configured configureStore_again by simp
qed

theorem configureStore_at_most_once_witness:
  "\<not> isStoreConfigured initialStore \<and> registeredKeys initialStore = [] \<and>
   fst (configureStore emptyConfig initialStore) = Inr StoreHandle \<and>
   fst (configureStore emptyConfig
          (run [Dispatch \<lparr>type = ''x'', payload = Undefined\<rparr>]
             (snd (configureStore emptyConfig initialStore)))) =
     Inl calledMultipleTimes"
proof -
  have a: "\<not> isStoreConfigured initialStore" by (simp add: initialStore_def)
  have b: "registeredKeys initialStore = []" by (simp add: registeredKeys_def initialStore_def)
  show ?thesis
    using a b configureStore_at_most_once[OF a b, of emptyConfig] by simp
qed

section \<open>The reducer subscription\<close>

text \<open>
  C10, as the claim states it, fails: an action dispatched before the store is
  initialised meets no subscription, and the subscription that \<open>configureStore\<close>
  creates afterwards does not receive it. The action was dispatched and is applied to
  the state zero times.
\<close>

theorem dispatch_before_initStore_counterexample:
  "dispatched (run [Dispatch \<lparr>type = ''x'', payload = Undefined\<rparr>, ConfigureStore emptyConfig]
      initialStore) =
     [\<lparr>type = ''x'', payload = Undefined\<rparr>, miniRxAction INIT None] \<and>
   map reducedAction
     (reductions (run [Dispatch \<lparr>type = ''x'', payload = Undefined\<rparr>, ConfigureStore emptyConfig]
        initialStore)) =
     [miniRxAction INIT None]"
  by (simp add: run_def dispatch_def configureStore_def configureStoreCore_def initStore_def
        initialStore_def getReducerManager_def createReducerManager_def hasFeatureReducers_def
        emptyConfig_def onAction_def Let_def)

text \<open>
  C10, amended: whatever calls are made, the callback that reduces each action is
  subscribed at most once. It is subscribed by the first call that initialises the
  store (\<open>configureStore\<close> or a feature registration). Before that call nothing is
  reduced and there is no snapshot. From that call on the callback is subscribed exactly
  once, the actions reduced are the actions dispatched since that call began, each once
  and in dispatch order (the actions dispatched before it are never reduced), and a
  dispatch applies the action exactly once: it appends one reduction, of the reducer of
  the manager on the current snapshot and the action, and the result is the new
  snapshot.
\<close>

theorem reducer_subscription_created_once:
  "subscriptions (run calls initialStore) \<le> 1 \<and>
   (list_all (\<lambda>c. \<not> initialising c) before \<and> initialising c \<longrightarrow>
      subscriptions (run before initialStore) = 0 \<and>
      reductions (run before initialStore) = [] \<and>
      appState (run before initialStore) = None \<and>
      subscriptions (run (before @ c # calls) initialStore) = 1 \<and>
      map reducedAction (reductions (run (before @ c # calls) initialStore)) =
        drop (length (dispatched (run before initialStore)))
          (dispatched (run (before @ c # calls) initialStore)) \<and>
      reductions (dispatch a (run (before @ c # calls) initialStore)) =
        reductions (run (before @ c # calls) initialStore) @
          [\<lparr>reducedAction = a,
            registeredThen = registeredKeys (run (before @ c # calls) initialStore),
            previousState = currentState (run (before @ c # calls) initialStore),
            nextState =
              managerReducer (fst (getReducerManager (run (before @ c # calls) initialStore)))
                (Suc (nextIdent (run (before @ c # calls) initialStore)))
                (currentState (run (before @ c # calls) initialStore)) a\<rparr>] \<and>
      appState (dispatch a (run (before @ c # calls) initialStore)) =
        Some (managerReducer (fst (getReducerManager (run (before @ c # calls) initialStore)))
                (Suc (nextIdent (run (before @ c # calls) initialStore)))
                (currentState (run (before @ c # calls) initialStore)) a))"
proof -
  let ?idle = "run before initialStore"
  let ?s = "run (before @ c # calls) initialStore"
  have "wired (run calls initialStore)"
    by (rule run_wired[OF initialStore_wired])
  then have one: "subscriptions (run calls initialStore) \<le> 1"
    by (simp add: wired_def)
  have main: "subscriptions ?idle = 0 \<and> reductions ?idle = [] \<and> appState ?idle = None \<and>
      subscriptions ?s = 1 \<and>
      map reducedAction (reductions ?s) = drop (length (dispatched ?idle)) (dispatched ?s) \<and>
      reductions (dispatch a ?s) =
        reductions ?s @
          [\<lparr>reducedAction = a, registeredThen = registeredKeys ?s,
            previousState = currentState ?s,
            nextState = managerReducer (fst (getReducerManager ?s)) (Suc (nextIdent ?s))
                          (currentState ?s) a\<rparr>] \<and>
      appState (dispatch a ?s) =
        Some (managerReducer (fst (getReducerManager ?s)) (Suc (nextIdent ?s)) (currentState ?s) a)"
    if pre: "list_all (\<lambda>c. \<not> initialising c) before" and init: "initialising c"
  proof -
    have i: "idle ?idle" by (rule run_idle[OF initialStore_idle pre])
    have split_run: "?s = run calls (perform c ?idle)" by (simp add: run_def)
    have st: "steady (length (dispatched ?idle)) ?s"
      unfolding split_run by (rule run_steady[OF first_call_steady[OF i init]])
    have sub: "subscriptions ?s = Suc 0" using st by (simp add: steady_def)
    have d: "dispatch a ?s = onAction a (?s\<lparr>dispatched := dispatched ?s @ [a]\<rparr>)"
      by (rule dispatch_subscribed_once[OF sub])
    show ?thesis
      unfolding d using i st by (simp add: idle_def steady_def onAction_result)
  qed
  show ?thesis
    using one main by blast
qed

theorem reducer_subscription_created_once_witness:
  "list_all (\<lambda>c. \<not> initialising c) [Dispatch \<lparr>type = ''x'', payload = Undefined\<rparr>] \<and>
   initialising (ConfigureStoreCore emptyConfig) \<and>
   subscriptions (run ([Dispatch \<lparr>type = ''x'', payload = Undefined\<rparr>] @
      ConfigureStoreCore emptyConfig #
      [ConfigureStoreCore emptyConfig, AddFeature ''a'' identityReducer None None,
       AddFeature ''b'' identityReducer None None,
       Dispatch \<lparr>type = ''y'', payload = Undefined\<rparr>]) initialStore) = 1 \<and>
   map reducedAction (reductions (run ([Dispatch \<lparr>type = ''x'', payload = Undefined\<rparr>] @
      ConfigureStoreCore emptyConfig #
      [ConfigureStoreCore emptyConfig, AddFeature ''a'' identityReducer None None,
       AddFeature ''b'' identityReducer None None,
       Dispatch \<lparr>type = ''y'', payload = Undefined\<rparr>]) initialStore)) =
   drop 1 (dispatched (run ([Dispatch \<lparr>type = ''x'', payload = Undefined\<rparr>] @
      ConfigureStoreCore emptyConfig #
      [ConfigureStoreCore emptyConfig, AddFeature ''a'' identityReducer None None,
       AddFeature ''b'' identityReducer None None,
       Dispatch \<lparr>type = ''y'', payload = Undefined\<rparr>]) initialStore))"
proof -
  have before: "dispatched (run [Dispatch \<lparr>type = ''x'', payload = Undefined\<rparr>] initialStore) =
      [\<lparr>type = ''x'', payload = Undefined\<rparr>]"
    by (simp add: run_def initialStore_def)
  show ?thesis
    using reducer_subscription_created_once
      [of "[ConfigureStoreCore emptyConfig, AddFeature ''a'' identityReducer None None,
            AddFeature ''b'' identityReducer None None,
            Dispatch \<lparr>type = ''y'', payload = Undefined\<rparr>]"
          "[Dispatch \<lparr>type = ''x'', payload = Undefined\<rparr>]"
          "ConfigureStoreCore emptyConfig"]
    by (simp add: initialising_def before)
qed

section \<open>Failures of effects\<close>

lemma deliver_closed:
  "i < length (effectSubscriptions rt) \<Longrightarrow> closed (effectSubscriptions rt ! i) \<Longrightarrow> deliver i n rt = rt"
  by (simp add: deliver_def)

lemma deliver_shape:
  "length (effectSubscriptions (deliver j n rt)) = length (effectSubscriptions rt)"
  "k \<noteq> j \<Longrightarrow> effectSubscriptions (deliver j n rt) ! k = effectSubscriptions rt ! k"
  "closed (effectSubscriptions rt ! k) \<Longrightarrow> k < length (effectSubscriptions rt) \<Longrightarrow>
     closed (effectSubscriptions (deliver j n rt) ! k)"
  by (auto simp: deliver_def closeSubscription_def nth_list_update split: notification.splits)

lemma deliver_other:
  assumes "apart i rt1 rt2" "j \<noteq> i"
  shows "apart i (deliver j n rt1) (deliver j n rt2)"
proof (cases "j < length (effectSubscriptions rt1)")
  case False
  then show ?thesis using assms by (simp add: deliver_def apart_def)
next
  case True
  then have same: "effectSubscriptions rt1 ! j = effectSubscriptions rt2 ! j"
    using assms by (simp add: apart_def)
  show ?thesis
    using assms True same
    by (cases n) (auto simp: apart_def deliver_def closeSubscription_def nth_list_update)
qed

lemma occur_apart:
  assumes "apart i rt1 rt2"
  shows "apart i (occur x rt1) (if fromEffect i x then rt2 else occur x rt2)"
proof (cases x)
  case (Upstream j n)
  show ?thesis
  proof (cases "j = i")
    case True
    then show ?thesis
      using assms deliver_closed[of i rt1 n] by (simp add: Upstream fromEffect_def apart_def)
  next
    case False
    then show ?thesis
      using deliver_other[OF assms, of j n] by (simp add: Upstream fromEffect_def)
  qed
next
  case (Register m)
  then show ?thesis
    using assms by (auto simp: fromEffect_def apart_def effect_def nth_append)
next
  case (Call c)
  then show ?thesis
    using assms by (simp add: fromEffect_def apart_def)
qed

lemma timeline_apart:
  "apart i rt1 rt2 \<Longrightarrow>
   apart i (fold occur xs rt1) (fold occur (filter (\<lambda>x. \<not> fromEffect i x) xs) rt2)"
proof (induction xs arbitrary: rt1 rt2)
  case Nil
  then show ?case by simp
next
  case (Cons x xs)
  show ?case
  proof (cases "fromEffect i x")
    case True
    with occur_apart[OF Cons.prems, of x] have "apart i (occur x rt1) rt2" by simp
    from Cons.IH[OF this] True show ?thesis by simp
  next
    case False
    with occur_apart[OF Cons.prems, of x] have "apart i (occur x rt1) (occur x rt2)" by simp
    from Cons.IH[OF this] False show ?thesis by simp
  qed
qed

lemma occur_keeps_subscriptions:
  "length (effectSubscriptions rt) \<le> length (effectSubscriptions (occur x rt))"
  by (cases x) (simp_all add: deliver_shape effect_def)

lemma timeline_keeps_subscriptions:
  "length (effectSubscriptions rt) \<le> length (effectSubscriptions (fold occur xs rt))"
proof (induction xs arbitrary: rt)
  case Nil
  then show ?case by simp
next
  case (Cons x xs)
  show ?case
    using occur_keeps_subscriptions[of rt x] Cons.IH[of "occur x rt"] by simp
qed

lemma failure_apart:
  "i < length (effectSubscriptions rt) \<Longrightarrow> apart i (deliver i Failure rt) rt"
  by (auto simp: apart_def deliver_def closeSubscription_def)

text \<open>
  C8: when the upstream of a registered effect fails, the store is left as it is, the
  subscription of that effect is closed and every other subscription is untouched; and
  whatever happens afterwards (values of other effects, registrations, calls of the
  store, dispatches), the store and the other effects go on exactly as if the failed
  effect had delivered nothing more.
\<close>

theorem effect_failure_is_isolated:
  assumes "i < length (effectSubscriptions rt)"
  shows "store (deliver i Failure rt) = store rt \<and>
         closed (effectSubscriptions (deliver i Failure rt) ! i) \<and>
         (\<forall>j < length (effectSubscriptions rt). j \<noteq> i \<longrightarrow>
            effectSubscriptions (deliver i Failure rt) ! j = effectSubscriptions rt ! j) \<and>
         store (fold occur timeline (deliver i Failure rt)) =
           store (fold occur (filter (\<lambda>x. \<not> fromEffect i x) timeline) rt) \<and>
         (\<forall>j < length (effectSubscriptions rt). j \<noteq> i \<longrightarrow>
            effectSubscriptions (fold occur timeline (deliver i Failure rt)) ! j =
            effectSubscriptions (fold occur (filter (\<lambda>x. \<not> fromEffect i x) timeline) rt) ! j)"
proof -
  have a: "apart i (deliver i Failure rt) rt"
    by (rule failure_apart[OF assms])
  have b: "apart i (fold occur timeline (deliver i Failure rt))
     (fold occur (filter (\<lambda>x. \<not> fromEffect i x) timeline) rt)"
    by (rule timeline_apart[OF a])
  have len: "length (effectSubscriptions rt) \<le>
      length (effectSubscriptions (fold occur timeline (deliver i Failure rt)))"
    using timeline_keeps_subscriptions[of "deliver i Failure rt" timeline]
    by (simp add: deliver_shape)
  show ?thesis
    using a b len by (auto simp: apart_def)
qed

theorem effect_failure_is_isolated_witness:
  "0 < length (effectSubscriptions (effect None (effect None (newRuntime initialStore)))) \<and>
   store (fold occur
            [Upstream 0 (Next \<lparr>type = ''a'', payload = Undefined\<rparr>),
             Upstream 1 (Next \<lparr>type = ''b'', payload = Undefined\<rparr>)]
            (deliver 0 Failure (effect None (effect None (newRuntime initialStore))))) =
     dispatch \<lparr>type = ''b'', payload = Undefined\<rparr> initialStore"
proof -
  let ?rt = "effect None (effect None (newRuntime initialStore))"
  let ?timeline = "[Upstream 0 (Next \<lparr>type = ''a'', payload = Undefined\<rparr>),
                    Upstream 1 (Next \<lparr>type = ''b'', payload = Undefined\<rparr>)]"
  have a: "0 < length (effectSubscriptions ?rt)"
    by (simp add: effect_def newRuntime_def)
  have others: "filter (\<lambda>x. \<not> fromEffect 0 x) ?timeline =
      [Upstream 1 (Next \<lparr>type = ''b'', payload = Undefined\<rparr>)]"
    by (simp add: fromEffect_def)
  have without: "store (fold occur [Upstream 1 (Next \<lparr>type = ''b'', payload = Undefined\<rparr>)] ?rt) =
      dispatch \<lparr>type = ''b'', payload = Undefined\<rparr> initialStore"
    by (simp add: deliver_def effect_def newRuntime_def effectCallback_def)
  have "store (fold occur ?timeline (deliver 0 Failure ?rt)) =
      store (fold occur (filter (\<lambda>x. \<not> fromEffect 0 x) ?timeline) ?rt)"
    using effect_failure_is_isolated[OF a, of ?timeline] by blast
  then have "store (fold occur ?timeline (deliver 0 Failure ?rt)) =
      dispatch \<lparr>type = ''b'', payload = Undefined\<rparr> initialStore"
    unfolding others without .
  with a show ?thesis by blast
qed

section \<open>Memoized selectors\<close>

lemma invoke_again:
  "invoke (fst (snd (invoke n state))) state = (fst (invoke n state), fst (snd (invoke n state)), [])"
proof (cases n)
  case (Projection l f)
  then show ?thesis by simp
next
  case (Memoized l sources combiner cache)
  show ?thesis
  proof (cases "cachedFor cache state")
    case (Some out)
    then show ?thesis by (simp add: Memoized)
  next
    case None
    obtain inputs sources' events where a: "invokeSources sources state = (inputs, sources', events)"
      by (cases "invokeSources sources state")
    obtain out cache' events' where b: "recombine l combiner cache state inputs = (out, cache', events')"
      by (cases "recombine l combiner cache state inputs")
    have "cachedFor (Some cache') state = Some out"
      using b by (cases cache) (auto split: if_splits)
    then show ?thesis by (simp add: Memoized None a b)
  qed
qed

text \<open>
  The model gives the calls that the spies of the test in \<open>component-store.spec.ts\<close>
  expect: the combiner of \<open>getCounter\<close> is invoked at each of the six states (counters
  1, 2, 2, 3, 3, 4), the combiner of \<open>getSquareCounter\<close> with 1, 2, 3 and 4.
\<close>

lemma memoized_selectors_test:
  "combinerCalls 1 (invokeAll getSquareCounter
      [Ref 100, Ref 101, Ref 102, Ref 103, Ref 104, Ref 105]) =
     [[Ref 100], [Ref 101], [Ref 102], [Ref 103], [Ref 104], [Ref 105]] \<and>
   map (\<lambda>inputs. counterOf (hd inputs)) (combinerCalls 1 (invokeAll getSquareCounter
      [Ref 100, Ref 101, Ref 102, Ref 103, Ref 104, Ref 105])) =
     [Ref 1, Ref 2, Ref 2, Ref 3, Ref 3, Ref 4] \<and>
   combinerCalls 2 (invokeAll getSquareCounter
      [Ref 100, Ref 101, Ref 102, Ref 103, Ref 104, Ref 105]) =
     [[Ref 1], [Ref 2], [Ref 3], [Ref 4]]"
  by code_simp

text \<open>
  C9: a selector invoked again on the state of its last invocation returns the same
  result, keeps its caches, and invokes no combiner and no source selector. A node whose
  cache holds the state, inputs and output of its last invocation, invoked on another
  state, invokes its sources; it returns the cached output without invoking its combiner
  when every input is the cached one, and invokes its combiner on the new inputs
  otherwise. Its one cache slot then holds the state, inputs and output of this
  invocation.
\<close>

theorem selector_memoization:
  "invoke (fst (snd (invoke n state))) state =
     (fst (invoke n state), fst (snd (invoke n state)), []) \<and>
   invoke (Memoized l sources combiner (Some (lastState, lastInputs, lastOutput))) state =
     (if state = lastState
      then (lastOutput, Memoized l sources combiner (Some (lastState, lastInputs, lastOutput)), [])
      else case invokeSources sources state of (inputs, sources', events) \<Rightarrow>
        if inputs = lastInputs
        then (lastOutput, Memoized l sources' combiner (Some (state, lastInputs, lastOutput)), events)
        else (combiner inputs, Memoized l sources' combiner (Some (state, inputs, combiner inputs)),
              events @ [CombinerInvoked l inputs]))"
  using invoke_again[of n state] by (auto split: prod.splits)

theorem selector_memoization_witness:
  "invoke (fst (snd (invoke getSquareCounter (Ref 100)))) (Ref 100) =
     (Ref 2, fst (snd (invoke getSquareCounter (Ref 100))), []) \<and>
   fst (invoke (Memoized 2 [getCounter] (\<lambda>inputs. twice (hd inputs))
          (Some (Ref 100, [Ref 1], Ref 2))) (Ref 101)) = Ref 4 \<and>
   snd (snd (invoke (Memoized 2 [getCounter] (\<lambda>inputs. twice (hd inputs))
          (Some (Ref 101, [Ref 2], Ref 4))) (Ref 102))) =
     [SourceInvoked 1, SourceInvoked 0, CombinerInvoked 1 [Ref 102]]"
proof -
  have v: "fst (invoke getSquareCounter (Ref 100)) = Ref 2"
    by (simp add: getSquareCounter_def getCounter_def getComponentState_def counterOf_def twice_def)
  have a: "invokeSources [getCounter] (Ref 101) =
      ([Ref 2], [Memoized 1 [getComponentState] (\<lambda>inputs. counterOf (hd inputs))
                   (Some (Ref 101, [Ref 101], Ref 2))],
       [SourceInvoked 1, SourceInvoked 0, CombinerInvoked 1 [Ref 101]])"
    by (simp add: getCounter_def getComponentState_def counterOf_def)
  have b: "invokeSources [getCounter] (Ref 102) =
      ([Ref 2], [Memoized 1 [getComponentState] (\<lambda>inputs. counterOf (hd inputs))
                   (Some (Ref 102, [Ref 102], Ref 2))],
       [SourceInvoked 1, SourceInvoked 0, CombinerInvoked 1 [Ref 102]])"
    by (simp add: getCounter_def getComponentState_def counterOf_def)
  show ?thesis
    using selector_memoization[of getSquareCounter "Ref 100"]
      selector_memoization[of getSquareCounter "Ref 101" 2 "[getCounter]"
        "\<lambda>inputs. twice (hd inputs)" "Ref 100" "[Ref 1]" "Ref 2"]
      selector_memoization[of getSquareCounter "Ref 102" 2 "[getCounter]"
        "\<lambda>inputs. twice (hd inputs)" "Ref 101" "[Ref 2]" "Ref 4"]
    unfolding v a b by (simp add: twice_def)
qed

end
